theory Spec2Isabelle
  imports Complex_Main "HOL-Library.Word" "HOL-Library.Monad_Syntax"
begin

unbundle bit_operations_syntax

section \<open>Bytes, buffers and unchecked array access\<close>

type_synonym u8 = "8 word"
type_synonym u16 = "16 word"

text \<open>
  A \<^verbatim>\<open>float\<close> read from a frame is kept as its 32-bit IEEE-754 pattern:
  \<^verbatim>\<open>getFloatLE\<close> is a \<^verbatim>\<open>memcpy\<close>, and the driver never computes with the levels.
\<close>

type_synonym float32 = "32 word"

text \<open>
  The driver indexes raw C arrays (\<^verbatim>\<open>buf[i]\<close>, \<^verbatim>\<open>memcpy\<close>, \<^verbatim>\<open>memset\<close>) without any
  bounds check.  A buffer is the list of its bytes; every access returns an option, and
  \<open>None\<close> stands for an access outside the array (undefined behaviour in C++).
\<close>

definition rd :: "'a list \<Rightarrow> nat \<Rightarrow> 'a option" where
  "rd buf i = (if i < length buf then Some (buf ! i) else None)"

definition wr :: "'a list \<Rightarrow> nat \<Rightarrow> 'a \<Rightarrow> 'a list option" where
  "wr buf i v = (if i < length buf then Some (buf[i := v]) else None)"

text \<open>\<^verbatim>\<open>memcpy(&dst[off], src, n)\<close> and \<^verbatim>\<open>memset(&dst[off], v, n)\<close>.\<close>

definition memcpy :: "u8 list \<Rightarrow> nat \<Rightarrow> u8 list \<Rightarrow> nat \<Rightarrow> u8 list option" where
  "memcpy dst off src n =
     (if n \<le> length src \<and> off + n \<le> length dst
      then Some (take off dst @ take n src @ drop (off + n) dst)
      else None)"

definition memset :: "u8 list \<Rightarrow> nat \<Rightarrow> u8 \<Rightarrow> nat \<Rightarrow> u8 list option" where
  "memset dst off v n =
     (if off + n \<le> length dst
      then Some (take off dst @ replicate n v @ drop (off + n) dst)
      else None)"

text \<open>
  A \<^verbatim>\<open>for (uint8_t i = 0; i < n; i++)\<close> loop: the counter is an 8-bit word; below the
  bound its increment cannot wrap, which is what makes the loops terminate.
\<close>

lemma unat_u8_succ: "(i::u8) < n \<Longrightarrow> unat (i + 1) = Suc (unat i)"
proof -
  assume "i < n"
  then have "unat i < unat n" by (simp add: word_less_nat_alt)
  moreover have "unat n < 256" using unsigned_less [of n, where ?'a = nat] by simp
  ultimately have "unat i + 1 < 256" by simp
  then show ?thesis by (simp add: unat_word_ariths)
qed

lemma u8_loop_measure: "(i::u8) < n \<Longrightarrow> unat n - unat (i + 1) < unat n - unat i"
  by (simp add: unat_u8_succ word_less_nat_alt)


section \<open>Checksum (MiniDSP.cpp, MiniDSP::Checksum)\<close>

text \<open>
  \<^verbatim>\<open>uint16_t sum = 0; for (uint8_t i = 0; i < data_length; i++) sum += data[i];
  return sum & 0xFF;\<close>
\<close>

function Checksum_loop :: "u8 list \<Rightarrow> u8 \<Rightarrow> u8 \<Rightarrow> u16 \<Rightarrow> u16 option" where
  "Checksum_loop data data_length i sum16 =
     (if i < data_length then
        (case rd data (unat i) of
           None \<Rightarrow> None
         | Some b \<Rightarrow> Checksum_loop data data_length (i + 1) (sum16 + ucast b))
      else Some sum16)"
  by pat_completeness auto
termination
  by (relation "measure (\<lambda>(data, data_length, i, sum16). unat data_length - unat i)")
     (auto simp: u8_loop_measure)

declare Checksum_loop.simps [simp del]

definition Checksum :: "u8 list \<Rightarrow> u8 \<Rightarrow> u8 option" where
  "Checksum data data_length =
     map_option (\<lambda>sum16. ucast (sum16 AND 0xFF)) (Checksum_loop data data_length 0 0)"


section \<open>Frame encoder (MiniDSP.cpp, MiniDSP::SendCommand)\<close>

text \<open>
  \<open>SendCommand_buf buf0 command command_length\<close> is the body of \<^verbatim>\<open>SendCommand\<close> run
  on a local array \<^verbatim>\<open>uint8_t buf[64]\<close> whose indeterminate initial content is \<open>buf0\<close>.
  The result is the list of frames handed to \<^verbatim>\<open>pUsb->outTransfer\<close>: \<open>Some []\<close> when the
  sanity check returns early, \<open>Some [frame]\<close> after a transfer, \<open>None\<close> when an access
  leaves the array.

  \<^verbatim>\<open>checksumOffset\<close> is an \<^verbatim>\<open>int\<close> (\<open>command_length + 1\<close> after integer promotion), so
  it does not wrap.  The count of the \<^verbatim>\<open>memset\<close>, \<^verbatim>\<open>sizeof (buf) - checksumOffset - 1\<close>,
  is computed in \<^verbatim>\<open>size_t\<close>, 16 bits wide on the AVR boards the library targets: it
  wraps below zero.
\<close>

definition size_t_sub :: "nat \<Rightarrow> nat \<Rightarrow> nat" where
  "size_t_sub a b = nat ((int a - int b) mod 65536)"

definition SendCommand_buf :: "u8 list \<Rightarrow> u8 list \<Rightarrow> u8 \<Rightarrow> u8 list list option" where
  "SendCommand_buf buf0 command command_length =
     (if command_length > 63 then Some []
      else do {
        buf \<leftarrow> wr buf0 0 (command_length + 1);
        buf \<leftarrow> memcpy buf 1 command (unat command_length);
        let checksumOffset = unat command_length + 1;
        c \<leftarrow> Checksum buf (command_length + 1);
        buf \<leftarrow> wr buf checksumOffset c;
        buf \<leftarrow> memset buf (checksumOffset + 1) 0xFF
                 (size_t_sub (size_t_sub 64 checksumOffset) 1);
        Some [buf]
      })"

text \<open>
  The array is a fresh local of the call.  Every cell is written before the transfer
  (lemma \<open>SendCommand_buf_init\<close> below), so the model starts it at zero.
\<close>

definition SendCommand :: "u8 list \<Rightarrow> u8 \<Rightarrow> u8 list list option" where
  "SendCommand command command_length =
     SendCommand_buf (replicate 64 0) command command_length"

text \<open>
  The frame a command of \<open>L\<close> bytes is encoded to, in closed form: the length byte,
  the command, the sum of both modulo 256, and the padding.
\<close>

definition frame_of :: "u8 list \<Rightarrow> u8 \<Rightarrow> u8 list" where
  "frame_of command L =
     (L + 1) # take (unat L) command
       @ [sum_list ((L + 1) # take (unat L) command)]
       @ replicate (62 - unat L) 0xFF"


section \<open>Outbound commands (MiniDSP.cpp)\<close>

definition RequestStatus :: "u8 list list option" where
  "RequestStatus = SendCommand [0x05, 0xFF, 0xD9, 0x03] 4"

definition requestSource :: "u8 list list option" where
  "requestSource = SendCommand [0x05, 0xFF, 0xD9, 0x01] 4"

definition requestVolume :: "u8 list list option" where
  "requestVolume = SendCommand [0x05, 0xFF, 0xDA, 0x01] 4"

definition requestMute :: "u8 list list option" where
  "requestMute = SendCommand [0x05, 0xFF, 0xDB, 0x01] 4"

definition RequestOutputLevels :: "u8 list list option" where
  "RequestOutputLevels = SendCommand [0x14, 0x00, 0x4A, 0x04] 4"

definition RequestInputLevels :: "u8 list list option" where
  "RequestInputLevels = SendCommand [0x14, 0x00, 0x44, 0x02] 4"

definition RequestLevels :: "u8 list list option" where
  "RequestLevels = SendCommand [0x14, 0x00, 0x44, 0x0A] 4"

text \<open>\<^verbatim>\<open>setVolume(uint8_t volume)\<close>: \<^verbatim>\<open>buf[0] = 0x42; buf[1] = volume; SendCommand(buf, 2)\<close>.\<close>

definition setVolume_uint8 :: "u8 \<Rightarrow> u8 list list option" where
  "setVolume_uint8 vol = SendCommand [0x42, vol] 2"

definition setMute :: "bool \<Rightarrow> u8 list list option" where
  "setMute muteOn = SendCommand [0x17, if muteOn then 0x01 else 0x00] 2"

definition setSource :: "u8 \<Rightarrow> u8 list list option" where
  "setSource src = (if src > 1 then Some [] else SendCommand [0x34, src] 2)"

text \<open>
  Modelled from the spec: the macro \<^verbatim>\<open>min\<close> of \<^verbatim>\<open>setVolume(float)\<close> comes from the
  Arduino core, which is not among the sources.  The spec describes the effect of
  \<^verbatim>\<open>max(-127, min(0, volume))\<close> as clamping to \<open>[-127, 0]\<close>; the definition is the
  core's usual one, \<^verbatim>\<open>((a)<(b)?(a):(b))\<close>.
\<close>

definition arduino_min :: "real \<Rightarrow> real \<Rightarrow> real" where
  "arduino_min a b = (if a < b then a else b)"

text \<open>
  Modelled from the spec: the macro \<^verbatim>\<open>max\<close>, from the Arduino core as well; the core's
  usual definition is \<^verbatim>\<open>((a)>(b)?(a):(b))\<close>.
\<close>

definition arduino_max :: "real \<Rightarrow> real \<Rightarrow> real" where
  "arduino_max a b = (if a > b then a else b)"

text \<open>
  Conversion of a floating value to \<^verbatim>\<open>uint8_t\<close> (C++ [conv.fpint]): the value is
  truncated towards zero; the behaviour is undefined (\<open>None\<close>) when the truncated
  value is not representable in the destination type.
\<close>

definition float_to_uint8 :: "real \<Rightarrow> u8 option" where
  "float_to_uint8 x =
     (let t = (if 0 \<le> x then \<lfloor>x\<rfloor> else \<lceil>x\<rceil>)
      in if 0 \<le> t \<and> t \<le> 255 then Some (word_of_int t) else None)"

text \<open>
  \<^verbatim>\<open>setVolume(float volume)\<close>: \<^verbatim>\<open>uint8_t intVol = max(-127, min(0, volume)) * 2;
  setVolume(intVol);\<close>

  A finite \<^verbatim>\<open>float\<close> is the real number it denotes; comparing, selecting and doubling
  a value between \<open>-127\<close> and \<open>0\<close> are exact in binary floating point, so the model on
  the reals computes what the code computes on every finite argument.
\<close>

definition setVolume_float :: "real \<Rightarrow> u8 list list option" where
  "setVolume_float vol =
     do {
       intVol \<leftarrow> float_to_uint8 (arduino_max (-127) (arduino_min 0 vol) * 2);
       setVolume_uint8 intVol
     }"


section \<open>Device state and callbacks (MiniDSP.h)\<close>

text \<open>
  A callback is a function pointer of the host application.  The state records for each
  pointer whether it is set (\<^verbatim>\<open>!= nullptr\<close>); a call through it is recorded as an event
  carrying the argument, converted to the pointer's parameter type.  The callbacks are
  taken not to call back into the driver.
\<close>

datatype callback =
    OnInit
  | OnSourceChange u8
  | OnVolumeChange u8
  | OnMutedChange bool
  | OnParse "u8 list"
  | OnNewOutputLevels "float32 list"
  | OnNewInputLevels "float32 list"

record MiniDSP =
  VID :: u16
  PID :: u16
  pFuncOnInit :: bool
  pFuncOnSourceChange :: bool
  pFuncOnVolumeChange :: bool
  pFuncOnMutedChange :: bool
  pFuncOnParse :: bool
  pFuncOnNewOutputLevels :: bool
  pFuncOnNewInputLevels :: bool
  preset :: u8
  source :: u8
  volume :: u16
  muted :: u8
  callbackAlways :: bool
  outputLevels :: "float32 list"
  inputLevels :: "float32 list"

definition MINIDSP_VID :: u16 where "MINIDSP_VID = 0x2752"
definition MINIDSP_PID :: u16 where "MINIDSP_PID = 0x0011"

text \<open>
  The state after construction: the member initialisers of the class.  \<^verbatim>\<open>VID\<close> and
  \<^verbatim>\<open>PID\<close> belong to the base class \<^verbatim>\<open>HIDUniversal\<close>, which sets them while the device
  is enumerated; they are parameters here.
\<close>

definition MiniDSP_new :: "u16 \<Rightarrow> u16 \<Rightarrow> MiniDSP" where
  "MiniDSP_new vid pid =
     \<lparr> VID = vid, PID = pid,
       pFuncOnInit = False, pFuncOnSourceChange = False, pFuncOnVolumeChange = False,
       pFuncOnMutedChange = False, pFuncOnParse = False,
       pFuncOnNewOutputLevels = False, pFuncOnNewInputLevels = False,
       preset = 4, source = 3, volume = 0x100, muted = 2,
       callbackAlways = True,
       outputLevels = [0, 0, 0, 0], inputLevels = [0, 0] \<rparr>"

definition callbackOnChange :: "MiniDSP \<Rightarrow> MiniDSP" where
  "callbackOnChange s = s\<lparr>callbackAlways := False\<rparr>"

definition callbackOnResponse :: "MiniDSP \<Rightarrow> MiniDSP" where
  "callbackOnResponse s = s\<lparr>callbackAlways := True\<rparr>"

text \<open>The argument of an \<open>attach\<close> function tells whether the pointer passed is set.\<close>

definition attachOnSourceChange :: "bool \<Rightarrow> MiniDSP \<Rightarrow> MiniDSP" where
  "attachOnSourceChange funcOnSourceChange s = s\<lparr>pFuncOnSourceChange := funcOnSourceChange\<rparr>"

definition attachOnVolumeChange :: "bool \<Rightarrow> MiniDSP \<Rightarrow> MiniDSP" where
  "attachOnVolumeChange funcOnVolumeChange s = s\<lparr>pFuncOnVolumeChange := funcOnVolumeChange\<rparr>"

definition attachOnMutedChange :: "bool \<Rightarrow> MiniDSP \<Rightarrow> MiniDSP" where
  "attachOnMutedChange funcOnMutedChange s = s\<lparr>pFuncOnMutedChange := funcOnMutedChange\<rparr>"

definition attachOnParse :: "bool \<Rightarrow> MiniDSP \<Rightarrow> MiniDSP" where
  "attachOnParse funcOnParse s = s\<lparr>pFuncOnParse := funcOnParse\<rparr>"

definition attachOnNewOutputLevels :: "bool \<Rightarrow> MiniDSP \<Rightarrow> MiniDSP" where
  "attachOnNewOutputLevels funcOnNewOutputLevels s =
     s\<lparr>pFuncOnNewOutputLevels := funcOnNewOutputLevels\<rparr>"

definition attachOnNewInputLevels :: "bool \<Rightarrow> MiniDSP \<Rightarrow> MiniDSP" where
  "attachOnNewInputLevels funcOnNewInputLevels s =
     s\<lparr>pFuncOnNewInputLevels := funcOnNewInputLevels\<rparr>"


section \<open>Response parsers (MiniDSP.cpp)\<close>

subsection \<open>The bodies of the \<^verbatim>\<open>case\<close> labels\<close>

text \<open>
  \<^verbatim>\<open>parseDirectSetResponse\<close> and \<^verbatim>\<open>parseByteReadResponse\<close> repeat the same three
  statements for a field: compute the \<open>Changed\<close> flag, store the value, and call the
  callback when \<^verbatim>\<open>(callbackAlways || changed) && pFunc != nullptr\<close>.  Each function
  returns the new state and the calls made.

  \<^verbatim>\<open>volume\<close> is a \<^verbatim>\<open>uint16_t\<close> compared with \<^verbatim>\<open>static_cast<int>(data)\<close>; the callback
  takes a \<^verbatim>\<open>uint8_t\<close>.  \<^verbatim>\<open>pFuncOnMutedChange\<close> takes a \<^verbatim>\<open>bool\<close>.
\<close>

definition volume_case :: "u8 \<Rightarrow> MiniDSP \<Rightarrow> MiniDSP \<times> callback list" where
  "volume_case data s =
     (let volumeChanged = (uint data \<noteq> uint (volume s));
          s' = s\<lparr>volume := ucast data\<rparr>
      in (s', if (callbackAlways s' \<or> volumeChanged) \<and> pFuncOnVolumeChange s'
              then [OnVolumeChange (ucast (volume s'))] else []))"

definition muted_case :: "u8 \<Rightarrow> MiniDSP \<Rightarrow> MiniDSP \<times> callback list" where
  "muted_case data s =
     (let mutedChanged = (data \<noteq> muted s);
          s' = s\<lparr>muted := data\<rparr>
      in (s', if (callbackAlways s' \<or> mutedChanged) \<and> pFuncOnMutedChange s'
              then [OnMutedChange (muted s' \<noteq> 0)] else []))"

definition source_case :: "u8 \<Rightarrow> MiniDSP \<Rightarrow> MiniDSP \<times> callback list" where
  "source_case data s =
     (let sourceChanged = (data \<noteq> source s);
          s' = s\<lparr>source := data\<rparr>
      in (s', if (callbackAlways s' \<or> sourceChanged) \<and> pFuncOnSourceChange s'
              then [OnSourceChange (source s')] else []))"

text \<open>\<^verbatim>\<open>case 0xD8\<close>: the value is stored; the call is commented out in the source.\<close>

definition preset_case :: "u8 \<Rightarrow> MiniDSP \<Rightarrow> MiniDSP \<times> callback list" where
  "preset_case data s = (s\<lparr>preset := data\<rparr>, [])"

subsection \<open>\<^verbatim>\<open>parseDirectSetResponse\<close>\<close>

definition parseDirectSetResponse :: "u8 list \<Rightarrow> MiniDSP \<Rightarrow> (MiniDSP \<times> callback list) option" where
  "parseDirectSetResponse buf s =
     do {
       data \<leftarrow> rd buf 2;
       opcode \<leftarrow> rd buf 1;
       Some (if opcode = 0x42 then volume_case data s
             else if opcode = 0x17 then muted_case data s
             else if opcode = 0x34 then source_case data s
             else (s, []))
     }"

subsection \<open>\<^verbatim>\<open>parseByteReadResponse\<close>\<close>

definition byteRead_switch :: "u8 \<Rightarrow> u8 \<Rightarrow> MiniDSP \<Rightarrow> MiniDSP \<times> callback list" where
  "byteRead_switch addr data s =
     (if addr = 0xD8 then preset_case data s
      else if addr = 0xA9 \<or> addr = 0xD9 then source_case data s
      else if addr = 0xDA then volume_case data s
      else if addr = 0xDB then muted_case data s
      else (s, []))"

text \<open>
  The loop \<^verbatim>\<open>for (uint8_t i = 0; i < dataLength; i++)\<close>.  \<^verbatim>\<open>baseAddr + i\<close> is stored in
  a \<^verbatim>\<open>uint8_t\<close> and wraps; the index \<^verbatim>\<open>i + 4\<close> is an \<^verbatim>\<open>int\<close> and does not.
\<close>

function parseByteRead_loop ::
  "u8 list \<Rightarrow> u8 \<Rightarrow> u8 \<Rightarrow> u8 \<Rightarrow> MiniDSP \<Rightarrow> callback list \<Rightarrow> (MiniDSP \<times> callback list) option"
where
  "parseByteRead_loop buf dataLength baseAddr i s calls =
     (if i < dataLength then
        (case rd buf (unat i + 4) of
           None \<Rightarrow> None
         | Some data \<Rightarrow>
             (case byteRead_switch (baseAddr + i) data s of
                (s', new) \<Rightarrow> parseByteRead_loop buf dataLength baseAddr (i + 1) s' (calls @ new)))
      else Some (s, calls))"
  by pat_completeness auto
termination
  by (relation "measure (\<lambda>(buf, dataLength, baseAddr, i, s, calls). unat dataLength - unat i)")
     (auto simp: u8_loop_measure)

declare parseByteRead_loop.simps [simp del]

definition parseByteReadResponse :: "u8 list \<Rightarrow> MiniDSP \<Rightarrow> (MiniDSP \<times> callback list) option" where
  "parseByteReadResponse buf s =
     do {
       b0 \<leftarrow> rd buf 0;
       let dataLength = b0 - 4;
       baseAddr \<leftarrow> rd buf 3;
       parseByteRead_loop buf dataLength baseAddr 0 s []
     }"

subsection \<open>\<^verbatim>\<open>parseFloatReadResponse\<close>\<close>

text \<open>\<^verbatim>\<open>getFloatLE(buf + off)\<close>: four bytes copied into a \<^verbatim>\<open>float\<close> on a little-endian target.\<close>

definition getFloatLE :: "u8 list \<Rightarrow> nat \<Rightarrow> float32 option" where
  "getFloatLE buf off =
     do {
       b0 \<leftarrow> rd buf off;
       b1 \<leftarrow> rd buf (off + 1);
       b2 \<leftarrow> rd buf (off + 2);
       b3 \<leftarrow> rd buf (off + 3);
       Some (ucast b0 OR push_bit 8 (ucast b1) OR push_bit 16 (ucast b2) OR push_bit 24 (ucast b3))
     }"

text \<open>
  The \<^verbatim>\<open>switch\<close> of the loop body, on the state and the two flags
  \<^verbatim>\<open>newOutputLevels\<close> and \<^verbatim>\<open>newInputLevels\<close>.  The indices of the stores are constants
  inside the declared sizes \<^verbatim>\<open>float outputLevels[4]\<close> and \<^verbatim>\<open>float inputLevels[2]\<close>.
\<close>

definition floatRead_switch ::
  "u8 \<Rightarrow> float32 \<Rightarrow> MiniDSP \<times> bool \<times> bool \<Rightarrow> MiniDSP \<times> bool \<times> bool"
where
  "floatRead_switch addr data = (\<lambda>(s, newOutputLevels, newInputLevels).
     if addr = 0x44 then (s\<lparr>inputLevels := (inputLevels s)[0 := data]\<rparr>, newOutputLevels, True)
     else if addr = 0x45 then (s\<lparr>inputLevels := (inputLevels s)[1 := data]\<rparr>, newOutputLevels, True)
     else if addr = 0x4A then (s\<lparr>outputLevels := (outputLevels s)[0 := data]\<rparr>, True, newInputLevels)
     else if addr = 0x4B then (s\<lparr>outputLevels := (outputLevels s)[1 := data]\<rparr>, True, newInputLevels)
     else if addr = 0x4C then (s\<lparr>outputLevels := (outputLevels s)[2 := data]\<rparr>, True, newInputLevels)
     else if addr = 0x4D then (s\<lparr>outputLevels := (outputLevels s)[3 := data]\<rparr>, True, newInputLevels)
     else (s, newOutputLevels, newInputLevels))"

text \<open>
  The loop \<^verbatim>\<open>for (uint8_t i = 0; i < nFloats; i++)\<close>; the offset \<^verbatim>\<open>4 + (i << 2)\<close> is
  computed in \<^verbatim>\<open>int\<close>.
\<close>

function parseFloatRead_loop ::
  "u8 list \<Rightarrow> u8 \<Rightarrow> u8 \<Rightarrow> u8 \<Rightarrow> MiniDSP \<times> bool \<times> bool \<Rightarrow> (MiniDSP \<times> bool \<times> bool) option"
where
  "parseFloatRead_loop buf nFloats baseAddr i st =
     (if i < nFloats then
        (case getFloatLE buf (4 + push_bit 2 (unat i)) of
           None \<Rightarrow> None
         | Some data \<Rightarrow>
             parseFloatRead_loop buf nFloats baseAddr (i + 1)
               (floatRead_switch (baseAddr + i) data st))
      else Some st)"
  by pat_completeness auto
termination
  by (relation "measure (\<lambda>(buf, nFloats, baseAddr, i, st). unat nFloats - unat i)")
     (auto simp: u8_loop_measure)

declare parseFloatRead_loop.simps [simp del]

definition parseFloatReadResponse :: "u8 list \<Rightarrow> MiniDSP \<Rightarrow> (MiniDSP \<times> callback list) option" where
  "parseFloatReadResponse buf s =
     do {
       b0 \<leftarrow> rd buf 0;
       let dataLength = b0 - 4;
       if unat dataLength mod 4 \<noteq> 0 then Some (s, [])
       else do {
         let nFloats = dataLength div 4;
         baseAddr \<leftarrow> rd buf 3;
         (s', newOutputLevels, newInputLevels) \<leftarrow>
            parseFloatRead_loop buf nFloats baseAddr 0 (s, False, False);
         Some (s',
           (if pFuncOnNewOutputLevels s' \<and> newOutputLevels
            then [OnNewOutputLevels (outputLevels s')] else []) @
           (if pFuncOnNewInputLevels s' \<and> newInputLevels
            then [OnNewInputLevels (inputLevels s')] else []))
       }
     }"

subsection \<open>\<^verbatim>\<open>ParseHIDData\<close>\<close>

text \<open>
  \<open>buf = None\<close> is the null pointer.  The parameters \<^verbatim>\<open>hid\<close> and \<^verbatim>\<open>is_rpt_id\<close> are
  unused; \<^verbatim>\<open>len\<close> is unused too and kept for the signature.  \<^verbatim>\<open>&&\<close> reads \<^verbatim>\<open>buf[2]\<close>
  only when the test of \<^verbatim>\<open>buf[1]\<close> succeeds.
\<close>

definition and_then :: "bool option \<Rightarrow> bool option \<Rightarrow> bool option" where
  "and_then a b = (case a of None \<Rightarrow> None | Some x \<Rightarrow> if x then b else Some False)"

definition after_calls ::
  "callback list \<Rightarrow> (MiniDSP \<times> callback list) option \<Rightarrow> (MiniDSP \<times> callback list) option"
where
  "after_calls pre r = map_option (\<lambda>(s, calls). (s, pre @ calls)) r"

definition ParseHIDData ::
  "u8 \<Rightarrow> u8 list option \<Rightarrow> MiniDSP \<Rightarrow> (MiniDSP \<times> callback list) option"
where
  "ParseHIDData len buf s =
     (case buf of
        None \<Rightarrow> Some (s, [])
      | Some b \<Rightarrow>
          if VID s \<noteq> MINIDSP_VID \<or> PID s \<noteq> MINIDSP_PID then Some (s, [])
          else after_calls (if pFuncOnParse s then [OnParse b] else [])
            (do {
               b0 \<leftarrow> rd b 0;
               if b0 = 0x01 then parseDirectSetResponse b s
               else do {
                 isByteRead \<leftarrow>
                   and_then (map_option (\<lambda>b1. b1 = 0x05) (rd b 1))
                            (map_option (\<lambda>b2. b2 = 0xFF) (rd b 2));
                 if isByteRead then parseByteReadResponse b s
                 else do {
                   isFloatRead \<leftarrow>
                     and_then (map_option (\<lambda>b1. b1 = 0x14) (rd b 1))
                              (map_option (\<lambda>b2. b2 = 0x00) (rd b 2));
                   if isFloatRead then parseFloatReadResponse b s
                   else Some (s, [])
                 }
               }
             }))"


section \<open>The loops as folds\<close>

text \<open>
  Devices for the proofs.  When every index stays inside the buffer, the loop of
  \<open>parseByteReadResponse\<close> is a fold of \<open>visit\<close> over the (address, data byte) pairs of
  the frame, and the loop of \<open>parseFloatReadResponse\<close> a fold of \<open>floatRead_switch\<close> over
  its (address, float) pairs (lemmas \<open>parseByteRead_loop_fold\<close> and
  \<open>parseFloatRead_loop_fold\<close>).  \<open>float_calls\<close> is the pair of calls that ends
  \<open>parseFloatReadResponse\<close>.
\<close>

definition visit :: "u8 \<times> u8 \<Rightarrow> MiniDSP \<times> callback list \<Rightarrow> MiniDSP \<times> callback list" where
  "visit = (\<lambda>(addr, data) (s, calls).
     case byteRead_switch addr data s of (s', new) \<Rightarrow> (s', calls @ new))"

definition visits :: "u8 list \<Rightarrow> u8 \<Rightarrow> nat \<Rightarrow> nat \<Rightarrow> (u8 \<times> u8) list" where
  "visits buf baseAddr i n = map (\<lambda>k. (baseAddr + of_nat k, buf ! (k + 4))) [i..<n]"

definition float_at :: "u8 list \<Rightarrow> nat \<Rightarrow> float32" where
  "float_at buf off =
     ucast (buf ! off) OR push_bit 8 (ucast (buf ! (off + 1)))
       OR push_bit 16 (ucast (buf ! (off + 2))) OR push_bit 24 (ucast (buf ! (off + 3)))"

definition samples :: "u8 list \<Rightarrow> u8 \<Rightarrow> nat \<Rightarrow> nat \<Rightarrow> (u8 \<times> float32) list" where
  "samples buf baseAddr i n = map (\<lambda>k. (baseAddr + of_nat k, float_at buf (4 + 4 * k))) [i..<n]"

definition float_calls :: "MiniDSP \<times> bool \<times> bool \<Rightarrow> MiniDSP \<times> callback list" where
  "float_calls = (\<lambda>(s', newOutputLevels, newInputLevels).
     (s', (if pFuncOnNewOutputLevels s' \<and> newOutputLevels
           then [OnNewOutputLevels (outputLevels s')] else []) @
          (if pFuncOnNewInputLevels s' \<and> newInputLevels
           then [OnNewInputLevels (inputLevels s')] else [])))"


text \<open>
  \<open>stored addr data s\<close>: the level that address \<open>addr\<close> names, if any, holds \<open>data\<close> in
  state \<open>s\<close>.
\<close>

definition stored :: "u8 \<Rightarrow> float32 \<Rightarrow> MiniDSP \<Rightarrow> bool" where
  "stored addr data s \<longleftrightarrow>
     (addr = 0x44 \<longrightarrow> inputLevels s ! 0 = data) \<and>
     (addr = 0x45 \<longrightarrow> inputLevels s ! 1 = data) \<and>
     (addr = 0x4A \<longrightarrow> outputLevels s ! 0 = data) \<and>
     (addr = 0x4B \<longrightarrow> outputLevels s ! 1 = data) \<and>
     (addr = 0x4C \<longrightarrow> outputLevels s ! 2 = data) \<and>
     (addr = 0x4D \<longrightarrow> outputLevels s ! 3 = data)"


section \<open>The tracked fields\<close>

text \<open>
  Devices for the proofs.  The byte-read addresses and the direct-set opcodes name one of
  four fields; the \<^verbatim>\<open>case\<close> bodies treat every field alike: store the byte
  (\<open>put_field\<close>) and call the field's callback (\<open>notify\<close>) when it is set and either
  \<open>callbackAlways\<close> holds or the stored value differs (\<open>field_is\<close>).  Lemmas
  \<open>byteRead_switch_field\<close> and \<open>parseDirectSetResponse_field\<close> show that the parsers are
  these functions.  \<open>preset\<close> has no callback.
\<close>

datatype dsp_field = Preset | Source | Volume | Muted

definition field_of_addr :: "u8 \<Rightarrow> dsp_field option" where
  "field_of_addr addr =
     (if addr = 0xD8 then Some Preset
      else if addr = 0xA9 \<or> addr = 0xD9 then Some Source
      else if addr = 0xDA then Some Volume
      else if addr = 0xDB then Some Muted
      else None)"

fun field_is :: "dsp_field \<Rightarrow> u8 \<Rightarrow> MiniDSP \<Rightarrow> bool" where
  "field_is Preset d s \<longleftrightarrow> preset s = d"
| "field_is Source d s \<longleftrightarrow> source s = d"
| "field_is Volume d s \<longleftrightarrow> uint (volume s) = uint d"
| "field_is Muted d s \<longleftrightarrow> muted s = d"

fun put_field :: "dsp_field \<Rightarrow> u8 \<Rightarrow> MiniDSP \<Rightarrow> MiniDSP" where
  "put_field Preset d s = s\<lparr>preset := d\<rparr>"
| "put_field Source d s = s\<lparr>source := d\<rparr>"
| "put_field Volume d s = s\<lparr>volume := ucast d\<rparr>"
| "put_field Muted d s = s\<lparr>muted := d\<rparr>"

fun attached :: "dsp_field \<Rightarrow> MiniDSP \<Rightarrow> bool" where
  "attached Preset s \<longleftrightarrow> False"
| "attached Source s \<longleftrightarrow> pFuncOnSourceChange s"
| "attached Volume s \<longleftrightarrow> pFuncOnVolumeChange s"
| "attached Muted s \<longleftrightarrow> pFuncOnMutedChange s"

fun call_of :: "dsp_field \<Rightarrow> u8 \<Rightarrow> callback list" where
  "call_of Preset d = []"
| "call_of Source d = [OnSourceChange d]"
| "call_of Volume d = [OnVolumeChange d]"
| "call_of Muted d = [OnMutedChange (d \<noteq> 0)]"

fun field_of_call :: "callback \<Rightarrow> dsp_field option" where
  "field_of_call (OnSourceChange d) = Some Source"
| "field_of_call (OnVolumeChange d) = Some Volume"
| "field_of_call (OnMutedChange b) = Some Muted"
| "field_of_call c = None"

definition calls_of :: "dsp_field \<Rightarrow> callback list \<Rightarrow> callback list" where
  "calls_of F calls = filter (\<lambda>c. field_of_call c = Some F) calls"

definition notify :: "dsp_field \<Rightarrow> u8 \<Rightarrow> MiniDSP \<Rightarrow> callback list" where
  "notify F d s =
     (if (callbackAlways s \<or> \<not> field_is F d s) \<and> attached F s then call_of F d else [])"

definition field_of_opcode :: "u8 \<Rightarrow> dsp_field option" where
  "field_of_opcode opcode =
     (if opcode = 0x42 then Some Volume
      else if opcode = 0x17 then Some Muted
      else if opcode = 0x34 then Some Source
      else None)"

text \<open>
  \<open>always_calls s ps\<close>: the calls made for the (address, data) pairs \<open>ps\<close> when
  \<open>callbackAlways\<close> holds.  \<open>agrees ps s\<close>: every pair of \<open>ps\<close> with a known address finds
  its byte stored in \<open>s\<close>.  \<open>single_valued_fields ps\<close>: no field receives two different
  bytes from \<open>ps\<close>.
\<close>

definition always_calls :: "MiniDSP \<Rightarrow> (u8 \<times> u8) list \<Rightarrow> callback list" where
  "always_calls s ps =
     concat (map (\<lambda>(a, d). case field_of_addr a of
                     None \<Rightarrow> []
                   | Some F \<Rightarrow> if attached F s then call_of F d else []) ps)"

definition agrees :: "(u8 \<times> u8) list \<Rightarrow> MiniDSP \<Rightarrow> bool" where
  "agrees ps s \<longleftrightarrow>
     (\<forall>a d F. (a, d) \<in> set ps \<and> field_of_addr a = Some F \<longrightarrow> field_is F d s)"

definition single_valued_fields :: "(u8 \<times> u8) list \<Rightarrow> bool" where
  "single_valued_fields ps \<longleftrightarrow>
     (\<forall>a d a' d' F. (a, d) \<in> set ps \<and> (a', d') \<in> set ps \<and>
        field_of_addr a = Some F \<and> field_of_addr a' = Some F \<longrightarrow> d = d')"


text \<open>
  \<open>fresh_values s\<close>: the four tracked fields still hold the values the constructor gives
  them (the header: "Start out with unknown values so that callbacks will be triggered on
  the first update").  \<open>legal F d\<close>: the byte \<open>d\<close> is a value the device reports for field
  \<open>F\<close> (preset 0..3, source 0..2, volume any byte, mute 0..1).
\<close>

definition fresh_values :: "MiniDSP \<Rightarrow> bool" where
  "fresh_values s \<longleftrightarrow>
     preset s = preset (MiniDSP_new (VID s) (PID s)) \<and>
     source s = source (MiniDSP_new (VID s) (PID s)) \<and>
     volume s = volume (MiniDSP_new (VID s) (PID s)) \<and>
     muted s = muted (MiniDSP_new (VID s) (PID s))"

fun legal :: "dsp_field \<Rightarrow> u8 \<Rightarrow> bool" where
  "legal Preset d \<longleftrightarrow> d \<le> 3"
| "legal Source d \<longleftrightarrow> d \<le> 2"
| "legal Volume d \<longleftrightarrow> True"
| "legal Muted d \<longleftrightarrow> d \<le> 1"


section \<open>The decision table of the specification\<close>

text \<open>
  The frame classifier as the specification words it (section 4.3), to be compared with
  \<open>ParseHIDData\<close>: the rules are checked in order; the first that matches selects the
  parser, and a frame matching none is discarded.
\<close>

datatype route = DirectSet | ByteRead | FloatRead | Discard

definition spec_classify :: "u8 list \<Rightarrow> route" where
  "spec_classify frame =
     (if frame ! 0 = 0x01 then DirectSet
      else if frame ! 1 = 0x05 \<and> frame ! 2 = 0xFF then ByteRead
      else if frame ! 1 = 0x14 \<and> frame ! 2 = 0x00 then FloatRead
      else Discard)"


section \<open>Checksum: the sum of the bytes modulo 256\<close>

lemma mod_65536_256: "(x::int) mod 65536 mod 256 = x mod 256"
  by (rule mod_mod_cancel) simp

lemma mod_add_65536_256: "((a::int) mod 65536 + b) mod 256 = (a + b) mod 256"
proof -
  have "(a mod 65536 + b) mod 256 = (a mod 65536 mod 256 + b) mod 256"
    by (simp add: mod_add_left_eq)
  also have "\<dots> = (a + b) mod 256"
    by (simp only: mod_65536_256 mod_add_left_eq)
  finally show ?thesis .
qed

lemma ucast_add_u16_u8: "(ucast ((a::u16) + ucast (b::u8)) :: u8) = ucast a + b"
  by transfer (simp add: take_bit_eq_mod mod_65536_256 mod_add_65536_256 mod_simps)

lemma and_FF_u16: "(a::u16) AND 0xFF = take_bit 8 a"
  by (simp add: take_bit_eq_mask mask_eq_exp_minus_1)

lemma ucast_low_byte: "(ucast ((a::u16) AND 0xFF) :: u8) = ucast a"
  unfolding and_FF_u16 by transfer simp

lemma Checksum_loop_sum:
  "unat data_length \<le> length data \<Longrightarrow>
   map_option (\<lambda>s. ucast s :: u8) (Checksum_loop data data_length i sum16) =
     Some (ucast sum16 + sum_list (drop (unat i) (take (unat data_length) data)))"
proof (induction data data_length i sum16 rule: Checksum_loop.induct)
  case (1 data data_length i sum16)
  show ?case
  proof (cases "i < data_length")
    case True
    then have lt: "unat i < unat data_length" by (simp add: word_less_nat_alt)
    with "1.prems" have r: "rd data (unat i) = Some (data ! unat i)"
      by (simp add: rd_def)
    have d: "drop (unat i) (take (unat data_length) data) =
             data ! unat i # drop (Suc (unat i)) (take (unat data_length) data)"
      using lt "1.prems" by (simp add: Cons_nth_drop_Suc [symmetric])
    have "map_option (\<lambda>s. ucast s :: u8)
            (Checksum_loop data data_length (i + 1) (sum16 + ucast (data ! unat i))) =
          Some (ucast (sum16 + ucast (data ! unat i)) +
                sum_list (drop (unat (i + 1)) (take (unat data_length) data)))"
      using "1.IH" [OF True r "1.prems"] .
    then show ?thesis
      using True r d
      by (subst Checksum_loop.simps)
         (simp add: unat_u8_succ [OF True] ucast_add_u16_u8 add.assoc)
  next
    case False
    then have "unat data_length \<le> unat i" by (simp add: word_less_nat_alt not_less)
    then show ?thesis
      using False by (subst Checksum_loop.simps) simp
  qed
qed

lemma Checksum_sum:
  "unat data_length \<le> length data \<Longrightarrow>
   Checksum data data_length = Some (sum_list (take (unat data_length) data))"
proof -
  assume a: "unat data_length \<le> length data"
  have "Checksum data data_length =
        map_option (\<lambda>s. ucast s :: u8) (Checksum_loop data data_length 0 0)"
    by (simp add: Checksum_def ucast_low_byte)
  then show ?thesis
    using Checksum_loop_sum [OF a, of 0 0] by simp
qed


section \<open>The encoded frame\<close>

lemma size_t_sub_small: "b \<le> a \<Longrightarrow> a < 65536 \<Longrightarrow> size_t_sub a b = a - b"
  by (simp add: size_t_sub_def nat_diff_distrib')

lemma unat_u8_le_63: "\<not> (63::u8) < L \<Longrightarrow> unat L \<le> 63"
  by (simp add: word_less_nat_alt)

lemma unat_u8_succ_63: "unat (L::u8) \<le> 63 \<Longrightarrow> unat (L + 1) = Suc (unat L)"
  by (simp add: unat_word_ariths)


lemma SendCommand_buf_frame:
  assumes L: "unat L \<le> 62" and c: "unat L \<le> length command" and b: "length buf0 = 64"
  shows "SendCommand_buf buf0 command L = Some [frame_of command L]"
proof -
  let ?n = "unat L"
  let ?pay = "take ?n command"
  have g: "\<not> 63 < L" using L by (simp add: word_less_nat_alt)
  have s: "unat (L + 1) = Suc ?n" using L by (simp add: unat_u8_succ_63)
  have lp: "length ?pay = ?n" using c by simp
  have w0: "wr buf0 0 (L + 1) = Some (buf0[0 := L + 1])"
    using b by (simp add: wr_def)
  let ?b1 = "buf0[0 := L + 1]"
  have t1: "take 1 ?b1 = [L + 1]"
    using b by (cases buf0) simp_all
  have m: "memcpy ?b1 1 command ?n = Some ((L + 1) # ?pay @ drop (Suc ?n) ?b1)"
    using L c b t1 by (simp add: memcpy_def)
  let ?b2 = "(L + 1) # ?pay @ drop (Suc ?n) ?b1"
  have l2: "length ?b2 = 64" using L c b by simp
  have tk: "take (Suc ?n) ?b2 = (L + 1) # ?pay" using lp by simp
  have cs: "Checksum ?b2 (L + 1) = Some (sum_list ((L + 1) # ?pay))"
  proof -
    have "unat (L + 1) \<le> length ?b2" using L unfolding l2 s by simp
    then have "Checksum ?b2 (L + 1) = Some (sum_list (take (unat (L + 1)) ?b2))"
      by (rule Checksum_sum)
    then show ?thesis by (simp only: s tk)
  qed
  let ?c = "sum_list ((L + 1) # ?pay)"
  have w1: "wr ?b2 (Suc ?n) ?c = Some (?b2[Suc ?n := ?c])"
    using l2 L by (simp add: wr_def)
  let ?b3 = "?b2[Suc ?n := ?c]"
  have l3: "length ?b3 = 64" using l2 by simp
  have cnt: "size_t_sub (size_t_sub 64 (Suc ?n)) 1 = 62 - ?n"
    using L by (simp add: size_t_sub_small)
  have t3: "take (Suc (Suc ?n)) ?b3 = (L + 1) # ?pay @ [?c]"
  proof -
    have "?b3 = ((L + 1) # ?pay) @ (drop (Suc ?n) ?b1)[0 := ?c]"
      using lp by (simp add: list_update_append)
    moreover have "drop (Suc ?n) ?b1 \<noteq> []" using L b by simp
    ultimately show ?thesis using lp
      by (cases "drop (Suc ?n) ?b1") simp_all
  qed
  have ms: "memset ?b3 (Suc (Suc ?n)) 0xFF (62 - ?n) = Some (frame_of command L)"
    using l3 L t3 by (simp add: memset_def frame_of_def)
  show ?thesis
    unfolding SendCommand_buf_def
    using g w0 m cs w1 ms cnt s by (simp add: Let_def)
qed

lemma SendCommand_buf_overrun:
  assumes L: "unat L = 63" and b: "length buf0 = 64"
  shows "SendCommand_buf buf0 command L = None"
proof (cases "63 \<le> length command")
  case False
  then have "memcpy (buf0[0 := L + 1]) 1 command (unat L) = None"
    using L by (simp add: memcpy_def)
  then show ?thesis
    using L b by (simp add: SendCommand_buf_def wr_def word_less_nat_alt)
next
  case True
  obtain b2 where m: "memcpy (buf0[0 := L + 1]) (Suc 0) command 63 = Some b2"
    and l2: "length b2 = 64"
    using b True by (simp add: memcpy_def)
  have s: "unat (L + 1) = 64" using L by (simp add: unat_u8_succ_63)
  have "unat (L + 1) \<le> length b2" unfolding l2 s by simp
  then have cs: "Checksum b2 (L + 1) = Some (sum_list (take (unat (L + 1)) b2))"
    by (rule Checksum_sum)
  have w: "\<And>c. wr b2 64 c = None" unfolding wr_def l2 by simp
  show ?thesis
    unfolding SendCommand_buf_def
    using L b by (simp add: wr_def [of buf0] word_less_nat_alt m cs w Let_def)
qed

lemma SendCommand_buf_short:
  assumes "unat L \<le> 63" "length command < unat L" "length buf0 = 64"
  shows "SendCommand_buf buf0 command L = None"
proof -
  have "memcpy (buf0[0 := L + 1]) 1 command (unat L) = None"
    using assms by (simp add: memcpy_def)
  then show ?thesis
    using assms by (simp add: SendCommand_buf_def wr_def word_less_nat_alt)
qed

lemma SendCommand_buf_cases:
  assumes b: "length buf0 = 64"
  shows "SendCommand_buf buf0 command L =
           (if 63 < L then Some []
            else if unat L \<le> 62 \<and> unat L \<le> length command then Some [frame_of command L]
            else None)"
proof -
  consider "63 < L" | "unat L \<le> 62" "unat L \<le> length command"
    | "unat L \<le> 63" "length command < unat L" | "unat L = 63" "unat L \<le> length command"
    by (fastforce simp: word_less_nat_alt not_less)
  then show ?thesis
  proof cases
    case 1 then show ?thesis by (simp add: SendCommand_buf_def)
  next
    case 2 
    then have "\<not> 63 < L" by (simp add: word_less_nat_alt)
    then show ?thesis using 2 SendCommand_buf_frame [OF 2 b] by simp
  next
    case 3
    then have "\<not> 63 < L" by (simp add: word_less_nat_alt)
    then show ?thesis using 3 SendCommand_buf_short [OF 3 b] by simp
  next
    case 4
    then have "\<not> 63 < L" by (simp add: word_less_nat_alt)
    then show ?thesis using 4 SendCommand_buf_overrun [OF 4(1) b] by simp
  qed
qed

lemma SendCommand_buf_init:
  "length buf0 = 64 \<Longrightarrow> SendCommand_buf buf0 command L = SendCommand command L"
  by (simp add: SendCommand_def SendCommand_buf_cases)

lemma SendCommand_rejected: "63 < L \<Longrightarrow> SendCommand command L = Some []"
  by (simp add: SendCommand_def SendCommand_buf_def)

lemma setVolume_uint8_20:
  "setVolume_uint8 20 = Some [[0x03, 0x42, 0x14, 0x59] @ replicate 60 0xFF]"
  by code_simp

text \<open>
  C1.  For every command of \<open>L \<le> 61\<close> bytes, \<open>SendCommand\<close> hands exactly one frame
  to the transport.  The frame has 64 bytes; byte 0 is \<open>L + 1\<close>; bytes \<open>1..L\<close> are the
  command bytes; byte \<open>L + 1\<close> is \<open>Checksum\<close> of the bytes \<open>0..L\<close> of the frame; the
  bytes \<open>L + 2..63\<close> are \<open>0xFF\<close>.
\<close>

theorem SendCommand_frame_layout:
  assumes "unat L \<le> 61" and "unat L \<le> length command"
  shows "\<exists>frame. SendCommand command L = Some [frame] \<and> length frame = 64 \<and>
           frame ! 0 = L + 1 \<and>
           (\<forall>i<unat L. frame ! (i + 1) = command ! i) \<and>
           Checksum frame (L + 1) = Some (frame ! (unat L + 1)) \<and>
           (\<forall>i. unat L + 2 \<le> i \<and> i < 64 \<longrightarrow> frame ! i = 0xFF)"
proof -
  let ?n = "unat L"
  let ?pay = "take ?n command"
  let ?f = "frame_of command L"
  have lp: "length ?pay = ?n" using assms by simp
  have s: "unat (L + 1) = Suc ?n" using assms by (simp add: unat_u8_succ_63)
  have sent: "SendCommand command L = Some [?f]"
    unfolding SendCommand_def using assms by (intro SendCommand_buf_frame) simp_all
  have len: "length ?f = 64" using assms by (simp add: frame_of_def)
  have b0: "?f ! 0 = L + 1" by (simp add: frame_of_def)
  have pay: "\<forall>i<?n. ?f ! (i + 1) = command ! i"
    using lp by (simp add: frame_of_def nth_append)
  have tk: "take (Suc ?n) ?f = (L + 1) # ?pay"
    using lp by (simp add: frame_of_def)
  have ck: "?f ! (?n + 1) = sum_list ((L + 1) # ?pay)"
    using lp by (simp add: frame_of_def nth_append)
  have "unat (L + 1) \<le> length ?f" unfolding len s using assms by simp
  then have "Checksum ?f (L + 1) = Some (sum_list (take (unat (L + 1)) ?f))"
    by (rule Checksum_sum)
  then have cs: "Checksum ?f (L + 1) = Some (?f ! (?n + 1))"
    by (simp only: s tk ck)
  have pad: "\<forall>i. ?n + 2 \<le> i \<and> i < 64 \<longrightarrow> ?f ! i = 0xFF"
  proof (intro allI impI)
    fix i assume i: "?n + 2 \<le> i \<and> i < 64"
    have "?f = ((L + 1) # ?pay @ [sum_list ((L + 1) # ?pay)]) @ replicate (62 - ?n) 0xFF"
      by (simp add: frame_of_def)
    moreover have "length ((L + 1) # ?pay @ [sum_list ((L + 1) # ?pay)]) = ?n + 2"
      using lp by simp
    ultimately have "?f ! i = replicate (62 - ?n) 0xFF ! (i - (?n + 2))"
      using i by (simp only: nth_append) simp
    moreover have "i - (?n + 2) < 62 - ?n" using i assms(1) by arith
    ultimately show "?f ! i = 0xFF" by simp
  qed
  show ?thesis using sent len b0 pay cs pad by blast
qed

theorem SendCommand_frame_layout_witness:
  "unat (2::u8) \<le> 61 \<and> unat (2::u8) \<le> length [0x42, 0x14 :: u8] \<and>
   (\<exists>frame. SendCommand [0x42, 0x14] 2 = Some [frame] \<and> length frame = 64 \<and>
      frame ! 0 = 3 \<and> frame ! 1 = 0x42 \<and> frame ! 2 = 0x14 \<and>
      Checksum frame 3 = Some (frame ! 3) \<and>
      (\<forall>i. 4 \<le> i \<and> i < 64 \<longrightarrow> frame ! i = 0xFF))"
proof -
  have h1: "unat (2::u8) \<le> 61" by simp
  have h2: "unat (2::u8) \<le> length [0x42, 0x14 :: u8]" by simp
  from SendCommand_frame_layout [OF h1 h2]
  obtain frame where f: "SendCommand [0x42, 0x14] 2 = Some [frame]" "length frame = 64"
    "frame ! 0 = 2 + 1" "\<forall>i<unat (2::u8). frame ! (i + 1) = [0x42, 0x14 :: u8] ! i"
    "Checksum frame (2 + 1) = Some (frame ! (unat (2::u8) + 1))"
    "\<forall>i. unat (2::u8) + 2 \<le> i \<and> i < 64 \<longrightarrow> frame ! i = 0xFF"
    by blast
  have a: "\<And>i. i < 2 \<Longrightarrow> frame ! (i + 1) = [0x42, 0x14 :: u8] ! i"
    using f(4) by simp
  have "frame ! 1 = 0x42" using a [of 0] by simp
  moreover have "frame ! 2 = 0x14" using a [of 1] by (simp add: numeral_2_eq_2)
  ultimately have "frame ! 1 = 0x42" "frame ! 2 = 0x14" by simp_all
  with f h1 h2 show ?thesis by auto
qed

text \<open>
  C2.  The sanity check of \<open>SendCommand\<close> is \<^verbatim>\<open>command_length > 63\<close>.  A command of 63
  bytes passes it: the length byte and the command fill the 64 bytes of the array, and
  the store of the checksum at \<^verbatim>\<open>buf[64]\<close> leaves the array.  The command is neither
  rejected nor encoded.
\<close>

theorem SendCommand_63_bytes_overrun:
  "SendCommand (replicate 63 0) 63 = None \<and> SendCommand (replicate 63 0) 63 \<noteq> Some []"
  by code_simp


section \<open>Classification and the direct-set parser\<close>

lemma rd_in: "i < length buf \<Longrightarrow> rd buf i = Some (buf ! i)"
  by (simp add: rd_def)

lemma and_then_Some [simp]: "and_then (Some x) (Some y) = Some (x \<and> y)"
  by (simp add: and_then_def)

text \<open>
  C4.  For every inbound 64-byte frame of the device, \<open>ParseHIDData\<close> follows the
  decision table in order: \<open>frame[0] = 0x01\<close> runs the direct-set parser; otherwise
  \<open>frame[1] = 0x05\<close> and \<open>frame[2] = 0xFF\<close> run the byte-read parser; otherwise
  \<open>frame[1] = 0x14\<close> and \<open>frame[2] = 0x00\<close> run the float-read parser; otherwise the
  frame is discarded: the state is unchanged and no parser runs.  The debug hook
  \<open>pFuncOnParse\<close>, when set, is called with the frame before any of this.
\<close>

theorem ParseHIDData_classification:
  assumes "length buf = 64" and "VID s = MINIDSP_VID" and "PID s = MINIDSP_PID"
  shows "ParseHIDData len (Some buf) s =
           after_calls (if pFuncOnParse s then [OnParse buf] else [])
             (case spec_classify buf of
                DirectSet \<Rightarrow> parseDirectSetResponse buf s
              | ByteRead \<Rightarrow> parseByteReadResponse buf s
              | FloatRead \<Rightarrow> parseFloatReadResponse buf s
              | Discard \<Rightarrow> Some (s, []))"
  using assms
  by (simp add: ParseHIDData_def spec_classify_def rd_in)

theorem ParseHIDData_classification_witness:
  "length ([0x01, 0x42, 0x14] @ replicate 61 (0xFF::u8)) = 64 \<and>
   VID (attachOnVolumeChange True (MiniDSP_new MINIDSP_VID MINIDSP_PID)) = MINIDSP_VID \<and>
   PID (attachOnVolumeChange True (MiniDSP_new MINIDSP_VID MINIDSP_PID)) = MINIDSP_PID \<and>
   ParseHIDData 64 (Some ([0x01, 0x42, 0x14] @ replicate 61 0xFF))
       (attachOnVolumeChange True (MiniDSP_new MINIDSP_VID MINIDSP_PID)) =
     Some ((attachOnVolumeChange True (MiniDSP_new MINIDSP_VID MINIDSP_PID))\<lparr>volume := 0x14\<rparr>,
           [OnVolumeChange 0x14])"
proof -
  let ?buf = "[0x01, 0x42, 0x14] @ replicate 61 (0xFF::u8)"
  let ?s = "attachOnVolumeChange True (MiniDSP_new MINIDSP_VID MINIDSP_PID)"
  have h1: "length ?buf = 64" by simp
  have h2: "VID ?s = MINIDSP_VID" by (simp add: attachOnVolumeChange_def MiniDSP_new_def)
  have h3: "PID ?s = MINIDSP_PID" by (simp add: attachOnVolumeChange_def MiniDSP_new_def)
  have c: "spec_classify ?buf = DirectSet" by (simp add: spec_classify_def)
  have p: "parseDirectSetResponse ?buf ?s = Some (?s\<lparr>volume := 0x14\<rparr>, [OnVolumeChange 0x14])"
    by (simp add: parseDirectSetResponse_def rd_def volume_case_def Let_def
          attachOnVolumeChange_def MiniDSP_new_def)
  have n: "\<not> pFuncOnParse ?s" by (simp add: attachOnVolumeChange_def MiniDSP_new_def)
  from ParseHIDData_classification [OF h1 h2 h3, of 64]
  have "ParseHIDData 64 (Some ?buf) ?s = Some (?s\<lparr>volume := 0x14\<rparr>, [OnVolumeChange 0x14])"
    by (simp only: c p n route.case if_False after_calls_def option.map case_prod_conv append_Nil)
  with h1 h2 h3 show ?thesis by blast
qed

text \<open>
  C7.  When the data length \<open>frame[0] - 4\<close> (an 8-bit value) is not a multiple of 4,
  the float-read parser returns at once: the whole state is unchanged and no callback is
  called.
\<close>

theorem parseFloatReadResponse_bad_length:
  assumes "length buf = 64" and "unat (buf ! 0 - 4) mod 4 \<noteq> 0"
  shows "parseFloatReadResponse buf s = Some (s, [])"
  using assms by (simp add: parseFloatReadResponse_def rd_in)

theorem parseFloatReadResponse_bad_length_witness:
  "length ([0x09, 0x14, 0x00, 0x4A, 0, 0, 0x20, 0x41, 0x07] @ replicate 55 (0xFF::u8)) = 64 \<and>
   unat (([0x09, 0x14, 0x00, 0x4A, 0, 0, 0x20, 0x41, 0x07] @ replicate 55 (0xFF::u8)) ! 0 - 4) mod 4 \<noteq> 0 \<and>
   parseFloatReadResponse ([0x09, 0x14, 0x00, 0x4A, 0, 0, 0x20, 0x41, 0x07] @ replicate 55 0xFF)
       (attachOnNewOutputLevels True (MiniDSP_new MINIDSP_VID MINIDSP_PID)) =
     Some (attachOnNewOutputLevels True (MiniDSP_new MINIDSP_VID MINIDSP_PID), [])"
proof -
  let ?buf = "[0x09, 0x14, 0x00, 0x4A, 0, 0, 0x20, 0x41, 0x07] @ replicate 55 (0xFF::u8)"
  have h1: "length ?buf = 64" by simp
  have h2: "unat (?buf ! 0 - 4) mod 4 \<noteq> 0" by simp
  from parseFloatReadResponse_bad_length [OF h1 h2] h1 h2 show ?thesis by blast
qed

text \<open>
  C9.  The direct-set parser touches at most one field: opcode \<open>0x42\<close> stores the value
  byte in \<open>volume\<close> and changes nothing else, \<open>0x17\<close> does so for \<open>muted\<close>, \<open>0x34\<close>
  for \<open>source\<close>; any other opcode leaves the whole state unchanged and calls nothing.
\<close>

theorem parseDirectSetResponse_one_field:
  assumes "length buf = 64"
  shows "\<exists>s' calls. parseDirectSetResponse buf s = Some (s', calls) \<and>
           (buf ! 1 = 0x42 \<longrightarrow> s' = s\<lparr>volume := ucast (buf ! 2)\<rparr>) \<and>
           (buf ! 1 = 0x17 \<longrightarrow> s' = s\<lparr>muted := buf ! 2\<rparr>) \<and>
           (buf ! 1 = 0x34 \<longrightarrow> s' = s\<lparr>source := buf ! 2\<rparr>) \<and>
           (buf ! 1 \<noteq> 0x42 \<and> buf ! 1 \<noteq> 0x17 \<and> buf ! 1 \<noteq> 0x34 \<longrightarrow> s' = s \<and> calls = [])"
  using assms
  by (simp add: parseDirectSetResponse_def rd_in volume_case_def muted_case_def
        source_case_def Let_def)

theorem parseDirectSetResponse_one_field_witness:
  "length ([0x01, 0x17, 0x01] @ replicate 61 (0xFF::u8)) = 64 \<and>
   (\<exists>calls. parseDirectSetResponse ([0x01, 0x17, 0x01] @ replicate 61 0xFF)
        (MiniDSP_new MINIDSP_VID MINIDSP_PID) =
      Some ((MiniDSP_new MINIDSP_VID MINIDSP_PID)\<lparr>muted := 1\<rparr>, calls))"
proof -
  let ?buf = "[0x01, 0x17, 0x01] @ replicate 61 (0xFF::u8)"
  have h1: "length ?buf = 64" by simp
  have b1: "?buf ! 1 = 0x17" by simp
  have b2: "?buf ! 2 = 0x01" by (simp add: numeral_2_eq_2)
  from parseDirectSetResponse_one_field [OF h1, of "MiniDSP_new MINIDSP_VID MINIDSP_PID"]
  show ?thesis unfolding b1 b2 using h1 by auto
qed


section \<open>The read parsers and the bounds of the frame\<close>

lemma visits_Cons: "i < n \<Longrightarrow>
   visits buf baseAddr i n = (baseAddr + of_nat i, buf ! (i + 4)) # visits buf baseAddr (Suc i) n"
  by (simp add: visits_def upt_conv_Cons)

lemma samples_Cons: "i < n \<Longrightarrow>
   samples buf baseAddr i n = (baseAddr + of_nat i, float_at buf (4 + 4 * i)) # samples buf baseAddr (Suc i) n"
  by (simp add: samples_def upt_conv_Cons)

lemma parseByteRead_loop_fold:
  "unat dataLength + 4 \<le> length buf \<Longrightarrow>
   parseByteRead_loop buf dataLength baseAddr i s calls =
     Some (fold visit (visits buf baseAddr (unat i) (unat dataLength)) (s, calls))"
proof (induction buf dataLength baseAddr i s calls rule: parseByteRead_loop.induct)
  case (1 buf dataLength baseAddr i s calls)
  show ?case
  proof (cases "i < dataLength")
    case True
    then have lt: "unat i < unat dataLength" by (simp add: word_less_nat_alt)
    with "1.prems" have r: "rd buf (unat i + 4) = Some (buf ! (unat i + 4))"
      by (simp add: rd_def)
    obtain s' new where sw: "byteRead_switch (baseAddr + i) (buf ! (unat i + 4)) s = (s', new)"
      by (cases "byteRead_switch (baseAddr + i) (buf ! (unat i + 4)) s")
    have ih: "parseByteRead_loop buf dataLength baseAddr (i + 1) s' (calls @ new) =
               Some (fold visit (visits buf baseAddr (unat (i + 1)) (unat dataLength)) (s', calls @ new))"
      using "1.IH" [OF True r sw [symmetric] "1.prems"] .
    show ?thesis
      using True r sw ih
      by (subst parseByteRead_loop.simps)
         (simp add: visits_Cons [OF lt] visit_def unat_u8_succ [OF True])
  next
    case False
    then have "unat dataLength \<le> unat i" by (simp add: word_less_nat_alt not_less)
    then show ?thesis
      using False by (subst parseByteRead_loop.simps) (simp add: visits_def)
  qed
qed

lemma parseByteRead_loop_None:
  "length buf < unat dataLength + 4 \<Longrightarrow> i < dataLength \<Longrightarrow> unat i + 4 \<le> length buf \<Longrightarrow>
   parseByteRead_loop buf dataLength baseAddr i s calls = None"
proof (induction buf dataLength baseAddr i s calls rule: parseByteRead_loop.induct)
  case (1 buf dataLength baseAddr i s calls)
  show ?case
  proof (cases "unat i + 4 < length buf")
    case False
    then have "rd buf (unat i + 4) = None" by (simp add: rd_def)
    then show ?thesis using "1.prems"(2) by (subst parseByteRead_loop.simps) simp
  next
    case True
    then have r: "rd buf (unat i + 4) = Some (buf ! (unat i + 4))" by (simp add: rd_def)
    obtain s' new where sw: "byteRead_switch (baseAddr + i) (buf ! (unat i + 4)) s = (s', new)"
      by (cases "byteRead_switch (baseAddr + i) (buf ! (unat i + 4)) s")
    have su: "unat (i + 1) = Suc (unat i)" by (rule unat_u8_succ [OF "1.prems"(2)])
    have lt: "i + 1 < dataLength"
      using True "1.prems"(1) su by (simp add: word_less_nat_alt)
    have "parseByteRead_loop buf dataLength baseAddr (i + 1) s' (calls @ new) = None"
      using "1.IH" [OF "1.prems"(2) r sw [symmetric] "1.prems"(1) lt] True su by simp
    then show ?thesis
      using "1.prems"(2) r sw by (subst parseByteRead_loop.simps) simp
  qed
qed

lemma getFloatLE_in: "off + 4 \<le> length buf \<Longrightarrow> getFloatLE buf off = Some (float_at buf off)"
  by (simp add: getFloatLE_def float_at_def rd_def)

lemma getFloatLE_out: "length buf < off + 4 \<Longrightarrow> getFloatLE buf off = None"
  by (auto simp: getFloatLE_def rd_def Option.bind_eq_None_conv)

lemma push_bit_2_nat: "push_bit 2 (k::nat) = 4 * k"
  by (simp add: push_bit_eq_mult)

lemma parseFloatRead_loop_fold:
  "4 * unat nFloats + 4 \<le> length buf \<Longrightarrow>
   parseFloatRead_loop buf nFloats baseAddr i st =
     Some (fold (\<lambda>(addr, data). floatRead_switch addr data)
             (samples buf baseAddr (unat i) (unat nFloats)) st)"
proof (induction buf nFloats baseAddr i st rule: parseFloatRead_loop.induct)
  case (1 buf nFloats baseAddr i st)
  show ?case
  proof (cases "i < nFloats")
    case True
    then have lt: "unat i < unat nFloats" by (simp add: word_less_nat_alt)
    with "1.prems" have "4 + 4 * unat i + 4 \<le> length buf" by simp
    then have r: "getFloatLE buf (4 + push_bit 2 (unat i)) = Some (float_at buf (4 + 4 * unat i))"
      by (simp add: getFloatLE_in push_bit_2_nat)
    have ih: "parseFloatRead_loop buf nFloats baseAddr (i + 1)
                (floatRead_switch (baseAddr + i) (float_at buf (4 + 4 * unat i)) st) =
              Some (fold (\<lambda>(addr, data). floatRead_switch addr data)
                (samples buf baseAddr (unat (i + 1)) (unat nFloats))
                (floatRead_switch (baseAddr + i) (float_at buf (4 + 4 * unat i)) st))"
      using "1.IH" [OF True r "1.prems"] .
    show ?thesis
      using True r ih
      by (subst parseFloatRead_loop.simps)
         (simp add: samples_Cons [OF lt] unat_u8_succ [OF True])
  next
    case False
    then have "unat nFloats \<le> unat i" by (simp add: word_less_nat_alt not_less)
    then show ?thesis
      using False by (subst parseFloatRead_loop.simps) (simp add: samples_def)
  qed
qed

lemma parseFloatRead_loop_None:
  "length buf < 4 * unat nFloats + 4 \<Longrightarrow> i < nFloats \<Longrightarrow> 4 * unat i + 4 \<le> length buf \<Longrightarrow>
   parseFloatRead_loop buf nFloats baseAddr i st = None"
proof (induction buf nFloats baseAddr i st rule: parseFloatRead_loop.induct)
  case (1 buf nFloats baseAddr i st)
  show ?case
  proof (cases "4 + 4 * unat i + 4 \<le> length buf")
    case False
    then have "getFloatLE buf (4 + push_bit 2 (unat i)) = None"
      by (simp add: getFloatLE_out push_bit_2_nat)
    then show ?thesis using "1.prems"(2) by (subst parseFloatRead_loop.simps) simp
  next
    case True
    then have r: "getFloatLE buf (4 + push_bit 2 (unat i)) = Some (float_at buf (4 + 4 * unat i))"
      by (simp add: getFloatLE_in push_bit_2_nat)
    have su: "unat (i + 1) = Suc (unat i)" by (rule unat_u8_succ [OF "1.prems"(2)])
    have lt: "i + 1 < nFloats"
      using True "1.prems"(1) su by (simp add: word_less_nat_alt)
    have "parseFloatRead_loop buf nFloats baseAddr (i + 1)
            (floatRead_switch (baseAddr + i) (float_at buf (4 + 4 * unat i)) st) = None"
      using "1.IH" [OF "1.prems"(2) r "1.prems"(1) lt] True su by simp
    then show ?thesis
      using "1.prems"(2) r by (subst parseFloatRead_loop.simps) simp
  qed
qed

lemma unat_sub4: "unat (b - 4 :: u8) = (if 4 \<le> unat b then unat b - 4 else unat b + 252)"
  by (simp add: unat_sub_if_size word_size)

lemma dataLength_fits: "unat (b - 4 :: u8) + 4 \<le> 64 \<longleftrightarrow> 4 \<le> unat b \<and> unat b \<le> 64"
  by (auto simp: unat_sub4)

lemma parseByteReadResponse_fold:
  assumes "length buf = 64" "4 \<le> unat (buf ! 0)" "unat (buf ! 0) \<le> 64"
  shows "parseByteReadResponse buf s =
           Some (fold visit (visits buf (buf ! 3) 0 (unat (buf ! 0 - 4))) (s, []))"
proof -
  have "unat (buf ! 0 - 4) + 4 \<le> length buf"
    using assms dataLength_fits [of "buf ! 0"] by simp
  from parseByteRead_loop_fold [OF this, of "buf ! 3" 0 s "[]"] show ?thesis
    using assms(1) by (simp add: parseByteReadResponse_def rd_in)
qed

lemma parseByteReadResponse_None:
  assumes "length buf = 64" "\<not> (4 \<le> unat (buf ! 0) \<and> unat (buf ! 0) \<le> 64)"
  shows "parseByteReadResponse buf s = None"
proof -
  have "\<not> unat (buf ! 0 - 4) + 4 \<le> 64"
    using assms(2) dataLength_fits [of "buf ! 0"] by blast
  then have big: "length buf < unat (buf ! 0 - 4) + 4"
    using assms(1) by simp
  then have "0 < buf ! 0 - 4" using assms(1) by (simp add: word_less_nat_alt)
  moreover have "unat (0::u8) + 4 \<le> length buf" using assms(1) by simp
  ultimately have "parseByteRead_loop buf (buf ! 0 - 4) (buf ! 3) 0 s [] = None"
    using big by (intro parseByteRead_loop_None)
  then show ?thesis using assms(1) by (simp add: parseByteReadResponse_def rd_in)
qed



lemma nFloats_eq: "unat ((d::u8) div 4) = unat d div 4"
  by (simp add: unat_div)

lemma parseFloatReadResponse_fold:
  assumes "length buf = 64" "4 \<le> unat (buf ! 0)" "unat (buf ! 0) \<le> 64"
    and "unat (buf ! 0 - 4) mod 4 = 0"
  shows "parseFloatReadResponse buf s =
           Some (float_calls (fold (\<lambda>(addr, data). floatRead_switch addr data)
              (samples buf (buf ! 3) 0 (unat (buf ! 0 - 4) div 4)) (s, False, False)))"
proof -
  let ?d = "buf ! 0 - 4"
  have "unat ?d + 4 \<le> length buf"
    using assms dataLength_fits [of "buf ! 0"] by simp
  then have "4 * unat (?d div 4) + 4 \<le> length buf"
    by (simp add: nFloats_eq)
  from parseFloatRead_loop_fold [OF this, of "buf ! 3" 0 "(s, False, False)"] show ?thesis
    using assms(1,4)
    by (simp add: parseFloatReadResponse_def rd_in nFloats_eq float_calls_def split: prod.splits)
qed

lemma parseFloatReadResponse_None:
  assumes "length buf = 64" "\<not> (4 \<le> unat (buf ! 0) \<and> unat (buf ! 0) \<le> 64)"
    and m: "unat (buf ! 0 - 4) mod 4 = 0"
  shows "parseFloatReadResponse buf s = None"
proof -
  let ?d = "buf ! 0 - 4"
  have "\<not> unat ?d + 4 \<le> 64"
    using assms(2) dataLength_fits [of "buf ! 0"] by blast
  then have "length buf < unat ?d + 4"
    using assms(1) by simp
  moreover have e: "4 * (unat ?d div 4) = unat ?d" using m by presburger
  ultimately have big: "length buf < 4 * unat (?d div 4) + 4"
    by (simp add: nFloats_eq)
  then have "0 < ?d div 4" using assms(1) by (simp add: word_less_nat_alt)
  moreover have "4 * unat (0::u8) + 4 \<le> length buf" using assms(1) by simp
  ultimately have "parseFloatRead_loop buf (?d div 4) (buf ! 3) 0 (s, False, False) = None"
    using big by (intro parseFloatRead_loop_None)
  then show ?thesis using assms(1) m by (simp add: parseFloatReadResponse_def rd_in)
qed

text \<open>
  C10 (amended).  Both read parsers take \<open>frame[0] - 4\<close> in 8-bit arithmetic as the data
  length and index the frame at \<open>4 .. 3 + dataLength\<close> unchecked; below 4 the
  subtraction wraps (\<open>frame[0] = 3\<close> gives 255).  On a 64-byte frame the byte-read parser
  leaves the frame exactly when \<open>4 \<le> frame[0] \<le> 64\<close> fails.  The float-read parser
  first returns when the data length is not a multiple of 4, so it leaves the frame
  exactly when the data length is a multiple of 4 and \<open>4 \<le> frame[0] \<le> 64\<close> fails.
\<close>

theorem unchecked_frame_indexing:
  assumes "length buf = 64"
  shows "(parseByteReadResponse buf s = None \<longleftrightarrow>
            \<not> (4 \<le> unat (buf ! 0) \<and> unat (buf ! 0) \<le> 64)) \<and>
         (parseFloatReadResponse buf s = None \<longleftrightarrow>
            unat (buf ! 0 - 4) mod 4 = 0 \<and> \<not> (4 \<le> unat (buf ! 0) \<and> unat (buf ! 0) \<le> 64)) \<and>
         (unat (buf ! 0) < 4 \<longrightarrow> unat (buf ! 0 - 4) = unat (buf ! 0) + 252)"
proof (intro conjI)
  show "parseByteReadResponse buf s = None \<longleftrightarrow>
          \<not> (4 \<le> unat (buf ! 0) \<and> unat (buf ! 0) \<le> 64)"
    using parseByteReadResponse_None [OF assms, of s] parseByteReadResponse_fold [OF assms, of s]
    by auto
  show "parseFloatReadResponse buf s = None \<longleftrightarrow>
          unat (buf ! 0 - 4) mod 4 = 0 \<and> \<not> (4 \<le> unat (buf ! 0) \<and> unat (buf ! 0) \<le> 64)"
  proof (cases "unat (buf ! 0 - 4) mod 4 = 0")
    case False
    then show ?thesis using assms by (simp add: parseFloatReadResponse_def rd_in)
  next
    case True
    then show ?thesis
      using parseFloatReadResponse_None [OF assms _ True, of s]
        parseFloatReadResponse_fold [OF assms _ _ True, of s]
      by auto
  qed
  show "unat (buf ! 0) < 4 \<longrightarrow> unat (buf ! 0 - 4) = unat (buf ! 0) + 252"
    by (simp add: unat_sub4)
qed

theorem unchecked_frame_indexing_witness:
  "length ([0x03, 0x05, 0xFF, 0xDA] @ replicate 60 (0x00::u8)) = 64 \<and>
   parseByteReadResponse ([0x03, 0x05, 0xFF, 0xDA] @ replicate 60 0x00)
     (MiniDSP_new MINIDSP_VID MINIDSP_PID) = None \<and>
   unat (([0x03, 0x05, 0xFF, 0xDA] @ replicate 60 (0x00::u8)) ! 0 - 4) = 255"
proof -
  let ?buf = "[0x03, 0x05, 0xFF, 0xDA] @ replicate 60 (0x00::u8)"
  have h: "length ?buf = 64" by simp
  have b: "?buf ! 0 = 3" by simp
  from unchecked_frame_indexing [OF h, of "MiniDSP_new MINIDSP_VID MINIDSP_PID"]
  show ?thesis unfolding b using h by simp
qed

text \<open>
  With \<open>frame[0] = 3\<close> the data length wraps to 255, which is not a multiple of 4: the
  float-read parser returns before its loop and reads nothing beyond the frame, although
  \<open>4 \<le> frame[0]\<close> fails.
\<close>

theorem float_parser_short_length_counterexample:
  "parseFloatReadResponse ([0x03, 0x14, 0x00, 0x4A] @ replicate 60 0x00)
     (MiniDSP_new MINIDSP_VID MINIDSP_PID) = Some (MiniDSP_new MINIDSP_VID MINIDSP_PID, []) \<and>
   \<not> (4 \<le> unat (([0x03, 0x14, 0x00, 0x4A] @ replicate 60 (0x00::u8)) ! 0))"
  by code_simp


section \<open>The float-read parser\<close>

lemma u8_of_nat_inj: "k < 256 \<Longrightarrow> j < 256 \<Longrightarrow> (of_nat k :: u8) = of_nat j \<Longrightarrow> k = j"
proof -
  assume a: "k < 256" "j < 256" "(of_nat k :: u8) = of_nat j"
  then have "unat (of_nat k :: u8) = unat (of_nat j :: u8)" by simp
  then show ?thesis using a(1,2) by (simp add: unat_of_nat)
qed

lemma samples_set:
  "set (samples buf baseAddr 0 n) = {(baseAddr + of_nat k, float_at buf (4 + 4 * k)) | k. k < n}"
  by (auto simp: samples_def)

lemma samples_distinct: "n \<le> 256 \<Longrightarrow> distinct (map fst (samples buf baseAddr 0 n))"
proof -
  assume n: "n \<le> 256"
  have "inj_on (\<lambda>k. baseAddr + (of_nat k :: u8)) {0..<n}"
  proof (rule inj_onI)
    fix x y assume "x \<in> {0..<n}" "y \<in> {0..<n}"
      and e: "baseAddr + (of_nat x :: u8) = baseAddr + of_nat y"
    then have "x < 256" "y < 256" using n by simp_all
    moreover from e have "(of_nat x :: u8) = of_nat y" by simp
    ultimately show "x = y" by (rule u8_of_nat_inj)
  qed
  then show ?thesis
    by (simp add: samples_def distinct_map comp_def)
qed

lemma floatRead_switch_cases:
  obtains (in0) "a = 0x44" "floatRead_switch a d (s, no, ni) = (s\<lparr>inputLevels := (inputLevels s)[0 := d]\<rparr>, no, True)"
  | (in1) "a = 0x45" "floatRead_switch a d (s, no, ni) = (s\<lparr>inputLevels := (inputLevels s)[1 := d]\<rparr>, no, True)"
  | (out0) "a = 0x4A" "floatRead_switch a d (s, no, ni) = (s\<lparr>outputLevels := (outputLevels s)[0 := d]\<rparr>, True, ni)"
  | (out1) "a = 0x4B" "floatRead_switch a d (s, no, ni) = (s\<lparr>outputLevels := (outputLevels s)[1 := d]\<rparr>, True, ni)"
  | (out2) "a = 0x4C" "floatRead_switch a d (s, no, ni) = (s\<lparr>outputLevels := (outputLevels s)[2 := d]\<rparr>, True, ni)"
  | (out3) "a = 0x4D" "floatRead_switch a d (s, no, ni) = (s\<lparr>outputLevels := (outputLevels s)[3 := d]\<rparr>, True, ni)"
  | (other) "a \<notin> {0x44, 0x45, 0x4A, 0x4B, 0x4C, 0x4D}" "floatRead_switch a d (s, no, ni) = (s, no, ni)"
proof -
  consider "a = 0x44" | "a = 0x45" | "a = 0x4A" | "a = 0x4B" | "a = 0x4C" | "a = 0x4D"
    | "a \<notin> {0x44, 0x45, 0x4A, 0x4B, 0x4C, 0x4D}" by blast
  then show ?thesis
  proof cases
    case 1 then show ?thesis using in0 by (simp add: floatRead_switch_def)
  next
    case 2 then show ?thesis using in1 by (simp add: floatRead_switch_def)
  next
    case 3 then show ?thesis using out0 by (simp add: floatRead_switch_def)
  next
    case 4 then show ?thesis using out1 by (simp add: floatRead_switch_def)
  next
    case 5 then show ?thesis using out2 by (simp add: floatRead_switch_def)
  next
    case 6 then show ?thesis using out3 by (simp add: floatRead_switch_def)
  next
    case 7 then show ?thesis using other by (simp add: floatRead_switch_def)
  qed
qed

lemma floatRead_switch_flags:
  "floatRead_switch a d (s, no, ni) = (s', no', ni') \<Longrightarrow>
     no' = (no \<or> a \<in> {0x4A, 0x4B, 0x4C, 0x4D}) \<and> ni' = (ni \<or> a \<in> {0x44, 0x45}) \<and>
     pFuncOnNewOutputLevels s' = pFuncOnNewOutputLevels s \<and>
     pFuncOnNewInputLevels s' = pFuncOnNewInputLevels s \<and>
     length (outputLevels s') = length (outputLevels s) \<and>
     length (inputLevels s') = length (inputLevels s)"
  by (cases rule: floatRead_switch_cases [where a = a and d = d and s = s and no = no and ni = ni]) auto

lemma float_fold_flags:
  "fold (\<lambda>(a, d). floatRead_switch a d) ps (s, no, ni) = (s', no', ni') \<Longrightarrow>
     no' = (no \<or> (\<exists>p \<in> set ps. fst p \<in> {0x4A, 0x4B, 0x4C, 0x4D})) \<and>
     ni' = (ni \<or> (\<exists>p \<in> set ps. fst p \<in> {0x44, 0x45})) \<and>
     pFuncOnNewOutputLevels s' = pFuncOnNewOutputLevels s \<and>
     pFuncOnNewInputLevels s' = pFuncOnNewInputLevels s \<and>
     length (outputLevels s') = length (outputLevels s) \<and>
     length (inputLevels s') = length (inputLevels s)"
proof (induction ps arbitrary: s no ni)
  case Nil
  then show ?case by simp
next
  case (Cons p ps)
  obtain a d where p: "p = (a, d)" by (cases p)
  obtain s1 no1 ni1 where st: "floatRead_switch a d (s, no, ni) = (s1, no1, ni1)"
    by (cases "floatRead_switch a d (s, no, ni)")
  from Cons.prems p st
  have "fold (\<lambda>(a, d). floatRead_switch a d) ps (s1, no1, ni1) = (s', no', ni')" by simp
  from Cons.IH [OF this] floatRead_switch_flags [OF st] p show ?case by auto
qed

lemma floatRead_switch_stored_self:
  "length (outputLevels s) = 4 \<Longrightarrow> length (inputLevels s) = 2 \<Longrightarrow>
   floatRead_switch a d (s, no, ni) = (s', no', ni') \<Longrightarrow> stored a d s'"
  by (cases rule: floatRead_switch_cases [where a = a and d = d and s = s and no = no and ni = ni])
     (auto simp: stored_def)

lemma floatRead_switch_stored_other:
  "a' \<noteq> a \<Longrightarrow> stored a d s \<Longrightarrow>
   floatRead_switch a' d' (s, no, ni) = (s', no', ni') \<Longrightarrow> stored a d s'"
  by (cases rule: floatRead_switch_cases [where a = a' and d = d' and s = s and no = no and ni = ni])
     (auto simp: stored_def)

lemma float_fold_stored:
  "length (outputLevels s) = 4 \<Longrightarrow> length (inputLevels s) = 2 \<Longrightarrow>
   distinct (map fst ps) \<Longrightarrow> (a, d) \<in> set ps \<Longrightarrow>
   fold (\<lambda>(a, d). floatRead_switch a d) ps (s, no, ni) = (s', no', ni') \<Longrightarrow> stored a d s'"
proof (induction ps arbitrary: s' no' ni' rule: rev_induct)
  case Nil
  then show ?case by simp
next
  case (snoc p ps)
  obtain a' d' where p: "p = (a', d')" by (cases p)
  obtain s1 no1 ni1 where f: "fold (\<lambda>(a, d). floatRead_switch a d) ps (s, no, ni) = (s1, no1, ni1)"
    by (cases "fold (\<lambda>(a, d). floatRead_switch a d) ps (s, no, ni)")
  from snoc.prems(5) p f have st: "floatRead_switch a' d' (s1, no1, ni1) = (s', no', ni')"
    by simp
  from float_fold_flags [OF f] snoc.prems(1,2)
  have len: "length (outputLevels s1) = 4" "length (inputLevels s1) = 2" by simp_all
  show ?case
  proof (cases "(a, d) = p")
    case True
    with p have "a' = a" "d' = d" by simp_all
    with floatRead_switch_stored_self [OF len st] show ?thesis by simp
  next
    case False
    with snoc.prems(4) have m: "(a, d) \<in> set ps" by simp
    from snoc.prems(3) p have "distinct (map fst ps)" and "a' \<notin> fst ` set ps" by simp_all
    with m have ne: "a' \<noteq> a" by force
    have "stored a d s1"
      using snoc.IH [OF snoc.prems(1,2) \<open>distinct (map fst ps)\<close> m f] .
    from floatRead_switch_stored_other [OF ne this st] show ?thesis .
  qed
qed

lemma floatRead_switch_always:
  "floatRead_switch a d (s\<lparr>callbackAlways := b\<rparr>, no, ni) =
     (case floatRead_switch a d (s, no, ni) of
        (s', no', ni') \<Rightarrow> (s'\<lparr>callbackAlways := b\<rparr>, no', ni'))"
  by (simp add: floatRead_switch_def)

lemma float_fold_always:
  "fold (\<lambda>(a, d). floatRead_switch a d) ps (s\<lparr>callbackAlways := b\<rparr>, no, ni) =
     (case fold (\<lambda>(a, d). floatRead_switch a d) ps (s, no, ni) of
        (s', no', ni') \<Rightarrow> (s'\<lparr>callbackAlways := b\<rparr>, no', ni'))"
proof (induction ps arbitrary: s no ni)
  case Nil
  then show ?case by simp
next
  case (Cons p ps)
  obtain a d where p: "p = (a, d)" by (cases p)
  obtain s1 no1 ni1 where st: "floatRead_switch a d (s, no, ni) = (s1, no1, ni1)"
    by (cases "floatRead_switch a d (s, no, ni)")
  show ?case using Cons.IH [of s1 no1 ni1] p st
    by (simp add: floatRead_switch_always)
qed

lemma samples_addr_iff:
  "(\<exists>p \<in> set (samples buf baseAddr 0 n). fst p \<in> A) \<longleftrightarrow> (\<exists>k<n. baseAddr + of_nat k \<in> A)"
  by (auto simp: samples_set)

text \<open>
  C6.  For a well-formed float-read frame (\<open>4 \<le> frame[0] \<le> 64\<close>, data length a multiple
  of 4) the parser makes at most one call of \<open>pFuncOnNewOutputLevels\<close> followed by at most
  one call of \<open>pFuncOnNewInputLevels\<close>.  Each carries the whole array of the final
  state, in which every sample of the frame with a known address is stored.  The call for
  a group is made exactly when its callback is set and an address of the group
  (\<open>0x4A..0x4D\<close> for outputs, \<open>0x44..0x45\<close> for inputs) occurs in the frame; the value of
  \<open>callbackAlways\<close> changes neither the calls nor the levels.
\<close>

theorem parseFloatReadResponse_batched_calls:
  assumes "length buf = 64" and "4 \<le> unat (buf ! 0)" and "unat (buf ! 0) \<le> 64"
    and "unat (buf ! 0 - 4) mod 4 = 0"
    and "length (outputLevels s) = 4" and "length (inputLevels s) = 2"
  shows "\<exists>s' calls.
     parseFloatReadResponse buf s = Some (s', calls) \<and>
     calls =
       (if pFuncOnNewOutputLevels s \<and>
           (\<exists>k < unat (buf ! 0 - 4) div 4. buf ! 3 + of_nat k \<in> {0x4A, 0x4B, 0x4C, 0x4D})
        then [OnNewOutputLevels (outputLevels s')] else []) @
       (if pFuncOnNewInputLevels s \<and>
           (\<exists>k < unat (buf ! 0 - 4) div 4. buf ! 3 + of_nat k \<in> {0x44, 0x45})
        then [OnNewInputLevels (inputLevels s')] else []) \<and>
     length (outputLevels s') = 4 \<and> length (inputLevels s') = 2 \<and>
     (\<forall>k < unat (buf ! 0 - 4) div 4. stored (buf ! 3 + of_nat k) (float_at buf (4 + 4 * k)) s') \<and>
     (\<forall>b. parseFloatReadResponse buf (s\<lparr>callbackAlways := b\<rparr>) =
            Some (s'\<lparr>callbackAlways := b\<rparr>, calls))"
proof -
  let ?n = "unat (buf ! 0 - 4) div 4"
  let ?ps = "samples buf (buf ! 3) 0 ?n"
  let ?f = "\<lambda>(a, d). floatRead_switch a d"
  obtain s' no' ni' where f: "fold ?f ?ps (s, False, False) = (s', no', ni')"
    by (cases "fold ?f ?ps (s, False, False)")
  note fl = float_fold_flags [OF f]
  have no: "no' = (\<exists>k<?n. buf ! 3 + of_nat k \<in> {0x4A, 0x4B, 0x4C, 0x4D})"
    using fl samples_addr_iff [of buf "buf ! 3" ?n "{0x4A, 0x4B, 0x4C, 0x4D}"] by simp
  have ni: "ni' = (\<exists>k<?n. buf ! 3 + of_nat k \<in> {0x44, 0x45})"
    using fl samples_addr_iff [of buf "buf ! 3" ?n "{0x44, 0x45}"] by simp
  have po: "pFuncOnNewOutputLevels s' = pFuncOnNewOutputLevels s"
    and pi: "pFuncOnNewInputLevels s' = pFuncOnNewInputLevels s"
    and lo: "length (outputLevels s') = 4" and li: "length (inputLevels s') = 2"
    using fl assms(5,6) by simp_all
  let ?calls = "(if pFuncOnNewOutputLevels s \<and> no' then [OnNewOutputLevels (outputLevels s')] else []) @
       (if pFuncOnNewInputLevels s \<and> ni' then [OnNewInputLevels (inputLevels s')] else [])"
  have r: "parseFloatReadResponse buf s = Some (s', ?calls)"
    using parseFloatReadResponse_fold [OF assms(1-4), of s] f po pi
    by (simp add: float_calls_def)
  have st: "\<forall>k<?n. stored (buf ! 3 + of_nat k) (float_at buf (4 + 4 * k)) s'"
  proof (intro allI impI)
    fix k assume k: "k < ?n"
    have "?n \<le> 256" using unsigned_less [of "buf ! 0 - 4", where ?'a = nat] by simp
    then have d: "distinct (map fst ?ps)" by (rule samples_distinct)
    have m: "(buf ! 3 + of_nat k, float_at buf (4 + 4 * k)) \<in> set ?ps"
      using k by (auto simp: samples_set)
    show "stored (buf ! 3 + of_nat k) (float_at buf (4 + 4 * k)) s'"
      using float_fold_stored [OF assms(5,6) d m f] .
  qed
  have al: "\<forall>b. parseFloatReadResponse buf (s\<lparr>callbackAlways := b\<rparr>) =
            Some (s'\<lparr>callbackAlways := b\<rparr>, ?calls)"
  proof
    fix b
    have "fold ?f ?ps (s\<lparr>callbackAlways := b\<rparr>, False, False) = (s'\<lparr>callbackAlways := b\<rparr>, no', ni')"
      using float_fold_always [where ps = ?ps and s = s and b = b and no = False and ni = False] f by simp
    then show "parseFloatReadResponse buf (s\<lparr>callbackAlways := b\<rparr>) =
            Some (s'\<lparr>callbackAlways := b\<rparr>, ?calls)"
      using parseFloatReadResponse_fold [OF assms(1-4), of "s\<lparr>callbackAlways := b\<rparr>"] po pi
      by (simp add: float_calls_def)
  qed
  show ?thesis
    using r st al lo li unfolding no ni by blast
qed

theorem parseFloatReadResponse_batched_calls_witness:
  "length ([0x08, 0x14, 0x00, 0x4A, 0x00, 0x00, 0x20, 0x41] @ replicate 56 (0xFF::u8)) = 64 \<and>
   length (outputLevels (attachOnNewOutputLevels True (MiniDSP_new MINIDSP_VID MINIDSP_PID))) = 4 \<and>
   length (inputLevels (attachOnNewOutputLevels True (MiniDSP_new MINIDSP_VID MINIDSP_PID))) = 2 \<and>
   (\<exists>s'. parseFloatReadResponse ([0x08, 0x14, 0x00, 0x4A, 0x00, 0x00, 0x20, 0x41] @ replicate 56 0xFF)
            (attachOnNewOutputLevels True (MiniDSP_new MINIDSP_VID MINIDSP_PID)) =
          Some (s', [OnNewOutputLevels (outputLevels s')]) \<and>
        outputLevels s' ! 0 = 0x41200000)"
proof -
  let ?buf = "[0x08, 0x14, 0x00, 0x4A, 0x00, 0x00, 0x20, 0x41] @ replicate 56 (0xFF::u8)"
  let ?s = "attachOnNewOutputLevels True (MiniDSP_new MINIDSP_VID MINIDSP_PID)"
  have h1: "length ?buf = 64" by simp
  have b0: "?buf ! 0 = 8" by simp
  have b3: "?buf ! 3 = 0x4A" by (simp add: numeral_3_eq_3)
  have h2: "4 \<le> unat (?buf ! 0)" unfolding b0 by simp
  have h3: "unat (?buf ! 0) \<le> 64" unfolding b0 by simp
  have h4: "unat (?buf ! 0 - 4) mod 4 = 0" unfolding b0 by simp
  have h5: "length (outputLevels ?s) = 4"
    by (simp add: attachOnNewOutputLevels_def MiniDSP_new_def)
  have h6: "length (inputLevels ?s) = 2"
    by (simp add: attachOnNewOutputLevels_def MiniDSP_new_def)
  have n: "unat (?buf ! 0 - 4) div 4 = 1" unfolding b0 by simp
  have p: "pFuncOnNewOutputLevels ?s" "\<not> pFuncOnNewInputLevels ?s"
    by (simp_all add: attachOnNewOutputLevels_def MiniDSP_new_def)
  have fl: "float_at ?buf (4 + 4 * 0) = 0x41200000"
    by (simp add: float_at_def)
  from parseFloatReadResponse_batched_calls [OF h1 h2 h3 h4 h5 h6]
  obtain s' calls where r: "parseFloatReadResponse ?buf ?s = Some (s', calls)"
    and c: "calls =
       (if pFuncOnNewOutputLevels ?s \<and>
           (\<exists>k < unat (?buf ! 0 - 4) div 4. ?buf ! 3 + of_nat k \<in> {0x4A, 0x4B, 0x4C, 0x4D})
        then [OnNewOutputLevels (outputLevels s')] else []) @
       (if pFuncOnNewInputLevels ?s \<and>
           (\<exists>k < unat (?buf ! 0 - 4) div 4. ?buf ! 3 + of_nat k \<in> {0x44, 0x45})
        then [OnNewInputLevels (inputLevels s')] else [])"
    and st: "\<forall>k < unat (?buf ! 0 - 4) div 4. stored (?buf ! 3 + of_nat k) (float_at ?buf (4 + 4 * k)) s'"
    by blast
  from c have "calls = [OnNewOutputLevels (outputLevels s')]"
    unfolding n b3 using p by simp
  moreover from st have "stored 0x4A (float_at ?buf (4 + 4 * 0)) s'"
    unfolding n b3 by simp
  then have "outputLevels s' ! 0 = 0x41200000"
    unfolding fl by (simp add: stored_def)
  ultimately show ?thesis using r h1 h5 h6 by blast
qed


section \<open>\<open>setVolume\<close> with a value in dB\<close>

lemma clamp_range: "- 127 \<le> arduino_max (-127) (arduino_min 0 d) \<and> arduino_max (-127) (arduino_min 0 d) \<le> 0"
  by (simp add: arduino_max_def arduino_min_def)

lemma clamp_id: "- 127 \<le> d \<Longrightarrow> d \<le> 0 \<Longrightarrow> arduino_max (-127) (arduino_min 0 d) = d"
  by (simp add: arduino_max_def arduino_min_def)

lemma float_to_uint8_negative: "x \<le> - 1 \<Longrightarrow> float_to_uint8 x = None"
proof -
  assume x: "x \<le> - 1"
  then have "\<lceil>x\<rceil> \<le> - 1" by (simp add: ceiling_le_iff)
  with x show ?thesis by (simp add: float_to_uint8_def)
qed

lemma setVolume_float_undefined: "d \<le> - (1 / 2) \<Longrightarrow> setVolume_float d = None"
proof -
  assume d: "d \<le> - (1 / 2)"
  have "arduino_max (-127) (arduino_min 0 d) * 2 \<le> - 1"
    using d by (simp add: arduino_max_def arduino_min_def)
  then show ?thesis by (simp add: setVolume_float_def float_to_uint8_negative)
qed

lemma setVolume_float_zero: "- (1 / 2) < d \<Longrightarrow> setVolume_float d = setVolume_uint8 0"
proof -
  assume d: "- (1 / 2) < d"
  let ?x = "arduino_max (-127) (arduino_min 0 d) * 2"
  have r: "- 1 < ?x" "?x \<le> 0"
    using d by (simp_all add: arduino_max_def arduino_min_def)
  have "float_to_uint8 ?x = Some 0"
  proof (cases "?x = 0")
    case True
    then show ?thesis by (simp add: float_to_uint8_def)
  next
    case False
    with r have n: "\<not> 0 \<le> ?x" by simp
    have "\<lceil>?x\<rceil> = 0" using r by (simp add: ceiling_eq_iff)
    with n show ?thesis by (simp add: float_to_uint8_def)
  qed
  then show ?thesis by (simp add: setVolume_float_def)
qed

text \<open>
  C8.  \<open>setVolume(float)\<close> clamps the argument to \<open>[-127, 0]\<close> and multiplies it by
  \<open>2\<close>, not by \<open>-2\<close>: for \<open>-10\<close> dB the product is \<open>-20\<close>, whose conversion to
  \<^verbatim>\<open>uint8_t\<close> is undefined, where the header documents the device unit as \<open>-2 * dB\<close>,
  the value byte \<open>20\<close> that \<open>setVolume(uint8_t 20)\<close> sends.
\<close>

theorem setVolume_float_minus_10:
  "arduino_max (-127) (arduino_min 0 (-10)) * 2 = -20 \<and>
   setVolume_float (-10) = None \<and>
   setVolume_float (-10) \<noteq> setVolume_uint8 20"
proof -
  have a: "arduino_max (-127) (arduino_min 0 (-10)) * 2 = -20"
    by (simp add: arduino_max_def arduino_min_def)
  have b: "setVolume_float (-10) = None"
    by (rule setVolume_float_undefined) simp
  have c: "setVolume_uint8 20 = Some [[0x03, 0x42, 0x14, 0x59] @ replicate 60 0xFF]"
    by (rule setVolume_uint8_20)
  show ?thesis using a b c by simp
qed


section \<open>The byte-read parser, field by field\<close>

lemma ucast_u8_u16_u8: "(ucast (ucast (d::u8) :: u16) :: u8) = d"
  by transfer simp

lemma uint_ucast_u8_u16: "uint (ucast (d::u8) :: u16) = uint d"
  by transfer simp

lemma field_of_addr_Preset: "field_of_addr a = Some Preset \<longleftrightarrow> a = 0xD8"
  by (simp add: field_of_addr_def)

lemma field_of_addr_Source: "field_of_addr a = Some Source \<longleftrightarrow> a = 0xA9 \<or> a = 0xD9"
  by (simp add: field_of_addr_def)

lemma field_of_addr_Volume: "field_of_addr a = Some Volume \<longleftrightarrow> a = 0xDA"
  by (simp add: field_of_addr_def)

lemma field_of_addr_Muted: "field_of_addr a = Some Muted \<longleftrightarrow> a = 0xDB"
  by (simp add: field_of_addr_def)

lemma field_of_addr_None:
  "field_of_addr a = None \<longleftrightarrow> a \<noteq> 0xD8 \<and> a \<noteq> 0xA9 \<and> a \<noteq> 0xD9 \<and> a \<noteq> 0xDA \<and> a \<noteq> 0xDB"
  by (simp add: field_of_addr_def)

lemma byteRead_switch_field:
  assumes "field_of_addr a = Some F"
  shows "byteRead_switch a d s = (put_field F d s, notify F d s)"
proof (cases F)
  case Preset
  with assms have "a = 0xD8" by (simp add: field_of_addr_Preset)
  with Preset show ?thesis
    by (simp add: byteRead_switch_def preset_case_def notify_def)
next
  case Source
  with assms have "a = 0xA9 \<or> a = 0xD9" by (simp add: field_of_addr_Source)
  then have "byteRead_switch a d s = source_case d s"
    by (auto simp: byteRead_switch_def)
  with Source show ?thesis
    by (simp add: source_case_def notify_def Let_def)
next
  case Volume
  with assms have "a = 0xDA" by (simp add: field_of_addr_Volume)
  then have "byteRead_switch a d s = volume_case d s"
    by (simp add: byteRead_switch_def)
  with Volume show ?thesis
    by (simp add: volume_case_def notify_def Let_def ucast_u8_u16_u8 eq_commute)
next
  case Muted
  with assms have "a = 0xDB" by (simp add: field_of_addr_Muted)
  then have "byteRead_switch a d s = muted_case d s"
    by (simp add: byteRead_switch_def)
  with Muted show ?thesis
    by (simp add: muted_case_def notify_def Let_def)
qed

lemma byteRead_switch_none:
  "field_of_addr a = None \<Longrightarrow> byteRead_switch a d s = (s, [])"
  by (simp add: field_of_addr_None byteRead_switch_def)

lemma put_field_is: "field_is F d (put_field F d s)"
  by (cases F) (simp_all add: uint_ucast_u8_u16)

lemma put_field_other: "F' \<noteq> F \<Longrightarrow> field_is F d (put_field F' d' s) = field_is F d s"
  by (cases F; cases F') simp_all

lemma put_field_same: "field_is F d s \<Longrightarrow> put_field F d s = s"
proof (cases F)
  case Volume
  assume "field_is F d s"
  with Volume have "uint (volume s) = uint (ucast d :: u16)" by (simp add: uint_ucast_u8_u16)
  then have "volume s = ucast d" by (simp only: word_uint_eq_iff)
  with Volume show ?thesis by simp
qed simp_all

lemma put_field_always: "callbackAlways (put_field F d s) = callbackAlways s"
  by (cases F) simp_all

lemma put_field_attached: "attached G (put_field F d s) = attached G s"
  by (cases F; cases G) simp_all

lemma visit_field:
  "field_of_addr a = Some F \<Longrightarrow> visit (a, d) (s, calls) = (put_field F d s, calls @ notify F d s)"
  by (simp add: visit_def byteRead_switch_field)

lemma visit_none: "field_of_addr a = None \<Longrightarrow> visit (a, d) (s, calls) = (s, calls)"
  by (simp add: visit_def byteRead_switch_none)

lemma notify_attached_cong:
  "callbackAlways s' = callbackAlways s \<Longrightarrow> attached F s' = attached F s \<Longrightarrow>
   field_is F d s' = field_is F d s \<Longrightarrow> notify F d s' = notify F d s"
  by (simp add: notify_def)

lemma fold_visit_flags:
  "fold visit ps (s, calls) = (s', calls') \<Longrightarrow>
     callbackAlways s' = callbackAlways s \<and> (\<forall>G. attached G s' = attached G s)"
proof (induction ps arbitrary: s calls)
  case Nil
  then show ?case by simp
next
  case (Cons p ps)
  obtain a d where p: "p = (a, d)" by (cases p)
  show ?case
  proof (cases "field_of_addr a")
    case None
    with Cons.prems p have "fold visit ps (s, calls) = (s', calls')" by (simp add: visit_none)
    from Cons.IH [OF this] show ?thesis .
  next
    case (Some F)
    with Cons.prems p
    have "fold visit ps (put_field F d s, calls @ notify F d s) = (s', calls')"
      by (simp add: visit_field)
    from Cons.IH [OF this] show ?thesis
      by (simp add: put_field_always put_field_attached)
  qed
qed

lemma fold_visit_fix:
  "\<not> callbackAlways s \<Longrightarrow> agrees ps s \<Longrightarrow> fold visit ps (s, calls) = (s, calls)"
proof (induction ps arbitrary: calls)
  case Nil
  then show ?case by simp
next
  case (Cons p ps)
  obtain a d where p: "p = (a, d)" by (cases p)
  from Cons.prems(2) have ag: "agrees ps s" unfolding agrees_def by (simp, blast)
  show ?case
  proof (cases "field_of_addr a")
    case None
    then show ?thesis using Cons.IH [OF Cons.prems(1) ag] p by (simp add: visit_none)
  next
    case (Some F)
    with Cons.prems(2) p have h: "field_is F d s" unfolding agrees_def by (simp, blast)
    then have "visit (a, d) (s, calls) = (s, calls)"
      using Some Cons.prems(1) by (simp add: visit_field put_field_same notify_def)
    then show ?thesis using Cons.IH [OF Cons.prems(1) ag] p by simp
  qed
qed

lemma fold_visit_always:
  "callbackAlways s \<Longrightarrow> fold visit ps (s, calls) = (s', calls') \<Longrightarrow>
   calls' = calls @ always_calls s ps"
proof (induction ps arbitrary: s calls)
  case Nil
  then show ?case by (simp add: always_calls_def)
next
  case (Cons p ps)
  obtain a d where p: "p = (a, d)" by (cases p)
  show ?case
  proof (cases "field_of_addr a")
    case None
    with Cons.prems p have "fold visit ps (s, calls) = (s', calls')" by (simp add: visit_none)
    from Cons.IH [OF Cons.prems(1) this] show ?thesis
      using p None by (simp add: always_calls_def)
  next
    case (Some F)
    let ?s1 = "put_field F d s"
    from Cons.prems p Some
    have f: "fold visit ps (?s1, calls @ notify F d s) = (s', calls')"
      by (simp add: visit_field)
    have a1: "callbackAlways ?s1" using Cons.prems(1) by (simp add: put_field_always)
    have "always_calls ?s1 ps = always_calls s ps"
      by (simp add: always_calls_def put_field_attached cong: option.case_cong)
    with Cons.IH [OF a1 f] show ?thesis
      using p Some Cons.prems(1) by (simp add: always_calls_def notify_def)
  qed
qed

lemma fold_visit_agrees:
  "single_valued_fields ps \<Longrightarrow> fold visit ps (s, calls) = (s', calls') \<Longrightarrow> agrees ps s'"
proof (induction ps arbitrary: s' calls' rule: rev_induct)
  case Nil
  then show ?case by (simp add: agrees_def)
next
  case (snoc p ps)
  obtain a d where p: "p = (a, d)" by (cases p)
  obtain s1 calls1 where f: "fold visit ps (s, calls) = (s1, calls1)"
    by (cases "fold visit ps (s, calls)")
  from snoc.prems(1) have sv: "single_valued_fields ps"
    unfolding single_valued_fields_def set_append by blast
  have ag: "agrees ps s1" using snoc.IH [OF sv f] .
  from snoc.prems(2) p f have st: "visit (a, d) (s1, calls1) = (s', calls')" by simp
  show ?case
  proof (cases "field_of_addr a")
    case None
    with st have "s' = s1" by (simp add: visit_none)
    with ag None p show ?thesis unfolding agrees_def by auto
  next
    case (Some F)
    with st have s': "s' = put_field F d s1" by (simp add: visit_field)
    show ?thesis
      unfolding agrees_def
    proof (intro allI impI, elim conjE)
      fix a' d' F' assume m: "(a', d') \<in> set (ps @ [p])" and fa: "field_of_addr a' = Some F'"
      show "field_is F' d' s'"
      proof (cases "F' = F")
        case True
        have "(a, d) \<in> set (ps @ [p])" using p by simp
        with snoc.prems(1) m fa Some True have "d' = d"
          unfolding single_valued_fields_def by blast
        with True s' show ?thesis by (simp add: put_field_is)
      next
        case False
        with m p fa Some have "(a', d') \<in> set ps" by auto
        with ag fa have "field_is F' d' s1" unfolding agrees_def by blast
        with False s' show ?thesis by (simp add: put_field_other)
      qed
    qed
  qed
qed

lemma fold_visit_untouched:
  "\<forall>(a, d) \<in> set ps. field_of_addr a \<noteq> Some F \<Longrightarrow>
   fold visit ps (s, calls) = (s', calls') \<Longrightarrow>
   (\<forall>d. field_is F d s' = field_is F d s) \<and> calls_of F calls' = calls_of F calls"
proof (induction ps arbitrary: s calls)
  case Nil
  then show ?case by simp
next
  case (Cons p ps)
  obtain a d where p: "p = (a, d)" by (cases p)
  from Cons.prems(1) have rest: "\<forall>(a, d) \<in> set ps. field_of_addr a \<noteq> Some F" by simp
  show ?case
  proof (cases "field_of_addr a")
    case None
    with Cons.prems p have "fold visit ps (s, calls) = (s', calls')" by (simp add: visit_none)
    from Cons.IH [OF rest this] show ?thesis .
  next
    case (Some F')
    with Cons.prems(1) p have ne: "F' \<noteq> F" by auto
    from Cons.prems(2) p Some
    have f: "fold visit ps (put_field F' d s, calls @ notify F' d s) = (s', calls')"
      by (simp add: visit_field)
    have "calls_of F (notify F' d s) = []"
      using ne by (cases F') (auto simp: calls_of_def notify_def)
    with Cons.IH [OF rest f] ne show ?thesis
      by (simp add: put_field_other calls_of_def)
  qed
qed

lemma fold_visit_calls:
  "fold visit ps (s, calls) =
     (fst (fold visit ps (s, [])), calls @ snd (fold visit ps (s, [])))"
proof (induction ps arbitrary: s calls)
  case Nil
  then show ?case by simp
next
  case (Cons p ps)
  obtain s1 new where v: "visit p (s, []) = (s1, new)" by (cases "visit p (s, [])")
  then have v': "visit p (s, calls) = (s1, calls @ new)"
    by (cases p) (auto simp: visit_def split: prod.splits)
  show ?case
    using Cons.IH [of s1 "calls @ new"] Cons.IH [of s1 new] v v' by simp
qed

lemma notify_twice:
  "notify F d (put_field F d s) = (if callbackAlways s then notify F d s else [])"
  by (simp add: notify_def put_field_is put_field_always put_field_attached)

lemma volume_case_field: "volume_case d s = (put_field Volume d s, notify Volume d s)"
proof -
  have "byteRead_switch 0xDA d s = volume_case d s" by (simp add: byteRead_switch_def)
  moreover have "field_of_addr 0xDA = Some Volume" by (simp add: field_of_addr_def)
  ultimately show ?thesis using byteRead_switch_field [of "0xDA" Volume d s] by simp
qed

lemma muted_case_field: "muted_case d s = (put_field Muted d s, notify Muted d s)"
proof -
  have "byteRead_switch 0xDB d s = muted_case d s" by (simp add: byteRead_switch_def)
  moreover have "field_of_addr 0xDB = Some Muted" by (simp add: field_of_addr_def)
  ultimately show ?thesis using byteRead_switch_field [of "0xDB" Muted d s] by simp
qed

lemma source_case_field: "source_case d s = (put_field Source d s, notify Source d s)"
proof -
  have "byteRead_switch 0xD9 d s = source_case d s" by (simp add: byteRead_switch_def)
  moreover have "field_of_addr 0xD9 = Some Source" by (simp add: field_of_addr_def)
  ultimately show ?thesis using byteRead_switch_field [of "0xD9" Source d s] by simp
qed

lemma parseDirectSetResponse_field:
  "length buf = 64 \<Longrightarrow>
   parseDirectSetResponse buf s =
     Some (case field_of_opcode (buf ! 1) of
             None \<Rightarrow> (s, [])
           | Some F \<Rightarrow> (put_field F (buf ! 2) s, notify F (buf ! 2) s))"
  by (simp add: parseDirectSetResponse_def rd_in field_of_opcode_def
        volume_case_field muted_case_field source_case_field)

lemma parseDirectSetResponse_twice:
  assumes "length buf = 64"
  shows "\<exists>s1 calls. parseDirectSetResponse buf s = Some (s1, calls) \<and>
           parseDirectSetResponse buf s1 = Some (s1, if callbackAlways s then calls else [])"
proof (cases "field_of_opcode (buf ! 1)")
  case None
  then show ?thesis by (simp add: parseDirectSetResponse_field [OF assms])
next
  case (Some F)
  then show ?thesis
    by (simp add: parseDirectSetResponse_field [OF assms] put_field_same put_field_is notify_twice)
qed

lemma visits_set:
  "set (visits buf baseAddr 0 n) = {(baseAddr + of_nat k, buf ! (k + 4)) | k. k < n}"
  by (auto simp: visits_def)

lemma field_unique_addr:
  "field_of_addr a = Some F \<Longrightarrow> field_of_addr a' = Some F \<Longrightarrow> F \<noteq> Source \<Longrightarrow> a = a'"
  by (cases F)
     (simp_all add: field_of_addr_Preset field_of_addr_Volume field_of_addr_Muted)

lemma visits_single_valued:
  assumes n: "n \<le> 256"
    and src: "\<forall>i j. i < n \<and> j < n \<and> baseAddr + of_nat i \<in> {0xA9, 0xD9} \<and>
                baseAddr + of_nat j \<in> {0xA9, 0xD9} \<longrightarrow> buf ! (i + 4) = buf ! (j + 4)"
  shows "single_valued_fields (visits buf baseAddr 0 n)"
  unfolding single_valued_fields_def
proof (intro allI impI, elim conjE)
  fix a d a' d' F
  assume m: "(a, d) \<in> set (visits buf baseAddr 0 n)"
    and m': "(a', d') \<in> set (visits buf baseAddr 0 n)"
    and f: "field_of_addr a = Some F" and f': "field_of_addr a' = Some F"
  from m obtain i where i: "i < n" "a = baseAddr + of_nat i" "d = buf ! (i + 4)"
    by (auto simp: visits_set)
  from m' obtain j where j: "j < n" "a' = baseAddr + of_nat j" "d' = buf ! (j + 4)"
    by (auto simp: visits_set)
  show "d = d'"
  proof (cases "F = Source")
    case True
    with f f' have "a \<in> {0xA9, 0xD9}" "a' \<in> {0xA9, 0xD9}"
      by (simp_all add: field_of_addr_Source)
    with src i j show ?thesis by blast
  next
    case False
    from field_unique_addr [OF f f' False] i(2) j(2)
    have "(of_nat i :: u8) = of_nat j" by simp
    moreover have "i < 256" "j < 256" using i(1) j(1) n by simp_all
    ultimately have "i = j" by (intro u8_of_nat_inj)
    with i(3) j(3) show ?thesis by simp
  qed
qed

lemma dataLength_le_256: "unat (b - 4 :: u8) \<le> 256"
  using unsigned_less [of "b - 4", where ?'a = nat] by simp

lemma parseByteReadResponse_twice_always:
  assumes "length buf = 64" "4 \<le> unat (buf ! 0)" "unat (buf ! 0) \<le> 64" "callbackAlways s"
  shows "\<exists>s1 s2 calls. parseByteReadResponse buf s = Some (s1, calls) \<and>
           parseByteReadResponse buf s1 = Some (s2, calls) \<and>
           calls = always_calls s (visits buf (buf ! 3) 0 (unat (buf ! 0 - 4)))"
proof -
  let ?ps = "visits buf (buf ! 3) 0 (unat (buf ! 0 - 4))"
  obtain s1 calls where f1: "fold visit ?ps (s, []) = (s1, calls)"
    by (cases "fold visit ?ps (s, [])")
  obtain s2 calls2 where f2: "fold visit ?ps (s1, []) = (s2, calls2)"
    by (cases "fold visit ?ps (s1, [])")
  note fl = fold_visit_flags [OF f1]
  have c1: "calls = always_calls s ?ps"
    using fold_visit_always [OF assms(4) f1] by simp
  have a1: "callbackAlways s1" using fl assms(4) by simp
  have "always_calls s1 ?ps = always_calls s ?ps"
    using fl by (simp add: always_calls_def cong: option.case_cong)
  then have c2: "calls2 = calls"
    using fold_visit_always [OF a1 f2] c1 by simp
  show ?thesis
    using parseByteReadResponse_fold [OF assms(1-3), of s]
      parseByteReadResponse_fold [OF assms(1-3), of s1] f1 f2 c1 c2 by simp
qed

lemma parseByteReadResponse_twice_on_change:
  assumes "length buf = 64" "4 \<le> unat (buf ! 0)" "unat (buf ! 0) \<le> 64" "\<not> callbackAlways s"
    and src: "\<forall>i j. i < unat (buf ! 0 - 4) \<and> j < unat (buf ! 0 - 4) \<and>
                buf ! 3 + of_nat i \<in> {0xA9, 0xD9} \<and> buf ! 3 + of_nat j \<in> {0xA9, 0xD9} \<longrightarrow>
                buf ! (i + 4) = buf ! (j + 4)"
  shows "\<exists>s1 calls. parseByteReadResponse buf s = Some (s1, calls) \<and>
           parseByteReadResponse buf s1 = Some (s1, [])"
proof -
  let ?ps = "visits buf (buf ! 3) 0 (unat (buf ! 0 - 4))"
  obtain s1 calls where f1: "fold visit ?ps (s, []) = (s1, calls)"
    by (cases "fold visit ?ps (s, [])")
  have sv: "single_valued_fields ?ps"
    using dataLength_le_256 src by (rule visits_single_valued)
  have ag: "agrees ?ps s1" using fold_visit_agrees [OF sv f1] .
  have a1: "\<not> callbackAlways s1" using fold_visit_flags [OF f1] assms(4) by simp
  have f2: "fold visit ?ps (s1, []) = (s1, [])" using fold_visit_fix [OF a1 ag] .
  show ?thesis
    using parseByteReadResponse_fold [OF assms(1-3), of s]
      parseByteReadResponse_fold [OF assms(1-3), of s1] f1 f2 by simp
qed


section \<open>The same frame twice\<close>

lemma floatRead_switch_stored_fix:
  assumes "stored a d s" "length (outputLevels s) = 4" "length (inputLevels s) = 2"
  shows "floatRead_switch a d (s, no, ni) =
           (s, no \<or> a \<in> {0x4A, 0x4B, 0x4C, 0x4D}, ni \<or> a \<in> {0x44, 0x45})"
  using assms
  by (cases rule: floatRead_switch_cases [where a = a and d = d and s = s and no = no and ni = ni])
     (auto simp: stored_def list_update_same_conv)

lemma float_fold_fix:
  "\<forall>p \<in> set ps. stored (fst p) (snd p) s \<Longrightarrow>
   length (outputLevels s) = 4 \<Longrightarrow> length (inputLevels s) = 2 \<Longrightarrow>
   fold (\<lambda>(a, d). floatRead_switch a d) ps (s, no, ni) =
     (s, no \<or> (\<exists>p \<in> set ps. fst p \<in> {0x4A, 0x4B, 0x4C, 0x4D}),
         ni \<or> (\<exists>p \<in> set ps. fst p \<in> {0x44, 0x45}))"
proof (induction ps arbitrary: no ni)
  case Nil
  then show ?case by simp
next
  case (Cons p ps)
  obtain a d where p: "p = (a, d)" by (cases p)
  from Cons.prems(1) p have "stored a d s" by simp
  from floatRead_switch_stored_fix [OF this Cons.prems(2,3)]
  have st: "floatRead_switch a d (s, no, ni) =
           (s, no \<or> a \<in> {0x4A, 0x4B, 0x4C, 0x4D}, ni \<or> a \<in> {0x44, 0x45})" .
  from Cons.prems(1) have rest: "\<forall>p \<in> set ps. stored (fst p) (snd p) s" by simp
  show ?case
    using Cons.IH [OF rest Cons.prems(2,3)] p st by (simp add: disj_assoc)
qed

lemma parseFloatReadResponse_twice:
  assumes "length buf = 64" "4 \<le> unat (buf ! 0)" "unat (buf ! 0) \<le> 64"
    and "length (outputLevels s) = 4" "length (inputLevels s) = 2"
  shows "\<exists>s1 calls. parseFloatReadResponse buf s = Some (s1, calls) \<and>
           parseFloatReadResponse buf s1 = Some (s1, calls)"
proof (cases "unat (buf ! 0 - 4) mod 4 = 0")
  case False
  then show ?thesis using assms(1) by (simp add: parseFloatReadResponse_def rd_in)
next
  case True
  let ?n = "unat (buf ! 0 - 4) div 4"
  let ?ps = "samples buf (buf ! 3) 0 ?n"
  let ?f = "\<lambda>(a, d). floatRead_switch a d"
  obtain s1 no1 ni1 where f1: "fold ?f ?ps (s, False, False) = (s1, no1, ni1)"
    by (cases "fold ?f ?ps (s, False, False)")
  note fl = float_fold_flags [OF f1]
  have len: "length (outputLevels s1) = 4" "length (inputLevels s1) = 2"
    using fl assms(4,5) by simp_all
  have "?n \<le> 256" using unsigned_less [of "buf ! 0 - 4", where ?'a = nat] by simp
  then have d: "distinct (map fst ?ps)" by (rule samples_distinct)
  have st: "\<forall>p \<in> set ?ps. stored (fst p) (snd p) s1"
  proof
    fix p assume "p \<in> set ?ps"
    then have "(fst p, snd p) \<in> set ?ps" by simp
    from float_fold_stored [OF assms(4,5) d this f1] show "stored (fst p) (snd p) s1" .
  qed
  have f2: "fold ?f ?ps (s1, False, False) = (s1, no1, ni1)"
    using float_fold_fix [OF st len, of False False] fl by simp
  show ?thesis
    using parseFloatReadResponse_fold [OF assms(1-3) True, of s]
      parseFloatReadResponse_fold [OF assms(1-3) True, of s1] f1 f2
    by (simp add: float_calls_def)
qed

text \<open>
  A frame that writes two different bytes to \<open>source\<close> (addresses \<open>0xA9\<close> and \<open>0xD9\<close>)
  calls the source callback twice on every pass, also in on-change mode.
\<close>

lemma two_source_values_twice:
  "ParseHIDData 64 (Some ([0x35, 0x05, 0xFF, 0xA9, 0x00] @ replicate 47 0x00 @ [0x01] @ replicate 11 0xFF))
       (callbackOnChange (attachOnSourceChange True (MiniDSP_new MINIDSP_VID MINIDSP_PID))) =
     Some ((callbackOnChange (attachOnSourceChange True (MiniDSP_new MINIDSP_VID MINIDSP_PID)))
             \<lparr>preset := 0, source := 1\<rparr>,
           [OnSourceChange 0, OnSourceChange 1]) \<and>
   ParseHIDData 64 (Some ([0x35, 0x05, 0xFF, 0xA9, 0x00] @ replicate 47 0x00 @ [0x01] @ replicate 11 0xFF))
       ((callbackOnChange (attachOnSourceChange True (MiniDSP_new MINIDSP_VID MINIDSP_PID)))
             \<lparr>preset := 0, source := 1\<rparr>) =
     Some ((callbackOnChange (attachOnSourceChange True (MiniDSP_new MINIDSP_VID MINIDSP_PID)))
             \<lparr>preset := 0, source := 1\<rparr>,
           [OnSourceChange 0, OnSourceChange 1])"
  by code_simp

text \<open>
  C5 (amended).  Processing the same frame twice in succession:
  a direct-set frame leaves the state of the first pass unchanged on the second, which
  repeats the calls of the first pass in always-notify mode and makes none in on-change
  mode; a byte-read frame (\<open>4 \<le> frame[0] \<le> 64\<close>) repeats its calls in always-notify
  mode, and in on-change mode its second pass changes nothing and makes no call, provided
  the frame does not carry two different bytes for \<open>source\<close>; a float-read frame makes
  the same calls on both passes in either mode.
\<close>

theorem same_frame_twice:
  assumes "length buf = 64"
  shows "(\<exists>s1 calls. parseDirectSetResponse buf s = Some (s1, calls) \<and>
            parseDirectSetResponse buf s1 = Some (s1, if callbackAlways s then calls else [])) \<and>
         (4 \<le> unat (buf ! 0) \<and> unat (buf ! 0) \<le> 64 \<and> callbackAlways s \<longrightarrow>
            (\<exists>s1 s2 calls. parseByteReadResponse buf s = Some (s1, calls) \<and>
               parseByteReadResponse buf s1 = Some (s2, calls) \<and>
               calls = always_calls s (visits buf (buf ! 3) 0 (unat (buf ! 0 - 4))))) \<and>
         (4 \<le> unat (buf ! 0) \<and> unat (buf ! 0) \<le> 64 \<and> \<not> callbackAlways s \<and>
          (\<forall>i j. i < unat (buf ! 0 - 4) \<and> j < unat (buf ! 0 - 4) \<and>
                 buf ! 3 + of_nat i \<in> {0xA9, 0xD9} \<and> buf ! 3 + of_nat j \<in> {0xA9, 0xD9} \<longrightarrow>
                 buf ! (i + 4) = buf ! (j + 4)) \<longrightarrow>
            (\<exists>s1 calls. parseByteReadResponse buf s = Some (s1, calls) \<and>
               parseByteReadResponse buf s1 = Some (s1, []))) \<and>
         (4 \<le> unat (buf ! 0) \<and> unat (buf ! 0) \<le> 64 \<and>
          length (outputLevels s) = 4 \<and> length (inputLevels s) = 2 \<longrightarrow>
            (\<exists>s1 calls. parseFloatReadResponse buf s = Some (s1, calls) \<and>
               parseFloatReadResponse buf s1 = Some (s1, calls)))"
  using parseDirectSetResponse_twice [OF assms, of s]
    parseByteReadResponse_twice_always [OF assms, of s]
    parseByteReadResponse_twice_on_change [OF assms, of s]
    parseFloatReadResponse_twice [OF assms, of s]
  by blast

theorem same_frame_twice_witness:
  "length ([0x07, 0x05, 0xFF, 0xD9, 0x01, 0x14, 0x00] @ replicate 57 (0xFF::u8)) = 64 \<and>
   \<not> callbackAlways (callbackOnChange (attachOnVolumeChange True (MiniDSP_new MINIDSP_VID MINIDSP_PID))) \<and>
   (\<exists>s1 calls.
      parseByteReadResponse ([0x07, 0x05, 0xFF, 0xD9, 0x01, 0x14, 0x00] @ replicate 57 0xFF)
        (callbackOnChange (attachOnVolumeChange True (MiniDSP_new MINIDSP_VID MINIDSP_PID))) =
        Some (s1, calls) \<and>
      parseByteReadResponse ([0x07, 0x05, 0xFF, 0xD9, 0x01, 0x14, 0x00] @ replicate 57 0xFF) s1 =
        Some (s1, []))"
proof -
  let ?buf = "[0x07, 0x05, 0xFF, 0xD9, 0x01, 0x14, 0x00] @ replicate 57 (0xFF::u8)"
  let ?s = "callbackOnChange (attachOnVolumeChange True (MiniDSP_new MINIDSP_VID MINIDSP_PID))"
  have h1: "length ?buf = 64" by simp
  have b0: "?buf ! 0 = 7" by simp
  have b3: "?buf ! 3 = 0xD9" by (simp add: numeral_3_eq_3)
  have h2: "4 \<le> unat (?buf ! 0) \<and> unat (?buf ! 0) \<le> 64" unfolding b0 by simp
  have h3: "\<not> callbackAlways ?s"
    by (simp add: callbackOnChange_def)
  have only0: "\<And>i. i < 3 \<Longrightarrow> (0xD9::u8) + of_nat i \<in> {0xA9, 0xD9} \<Longrightarrow> i = 0"
  proof -
    fix i :: nat assume "i < 3" and a: "(0xD9::u8) + of_nat i \<in> {0xA9, 0xD9}"
    then consider "i = 0" | "i = 1" | "i = 2" by arith
    then show "i = 0" using a by cases simp_all
  qed
  have h4: "\<forall>i j. i < unat (?buf ! 0 - 4) \<and> j < unat (?buf ! 0 - 4) \<and>
                 ?buf ! 3 + of_nat i \<in> {0xA9, 0xD9} \<and> ?buf ! 3 + of_nat j \<in> {0xA9, 0xD9} \<longrightarrow>
                 ?buf ! (i + 4) = ?buf ! (j + 4)"
    unfolding b0 b3
  proof (intro allI impI, elim conjE)
    fix i j :: nat
    assume "i < unat (7 - 4 :: u8)" "j < unat (7 - 4 :: u8)"
      and "(0xD9::u8) + of_nat i \<in> {0xA9, 0xD9}" "(0xD9::u8) + of_nat j \<in> {0xA9, 0xD9}"
    then have "i = 0" "j = 0" using only0 by simp_all
    then show "?buf ! (i + 4) = ?buf ! (j + 4)" by simp
  qed
  from same_frame_twice [OF h1, of ?s] h2 h3 h4
  have "\<exists>s1 calls. parseByteReadResponse ?buf ?s = Some (s1, calls) \<and>
          parseByteReadResponse ?buf s1 = Some (s1, [])"
    by blast
  with h1 h3 show ?thesis by blast
qed

text \<open>
  In on-change mode the second pass of a float-read frame calls
  \<open>pFuncOnNewOutputLevels\<close> again, although no level changed.
\<close>

theorem same_frame_twice_counterexample:
  "\<not> callbackAlways (callbackOnChange (attachOnNewOutputLevels True (MiniDSP_new MINIDSP_VID MINIDSP_PID))) \<and>
   ParseHIDData 64 (Some ([0x08, 0x14, 0x00, 0x4A, 0x00, 0x00, 0x20, 0x41] @ replicate 56 0xFF))
       (callbackOnChange (attachOnNewOutputLevels True (MiniDSP_new MINIDSP_VID MINIDSP_PID))) =
     Some ((callbackOnChange (attachOnNewOutputLevels True (MiniDSP_new MINIDSP_VID MINIDSP_PID)))
             \<lparr>outputLevels := [0x41200000, 0, 0, 0]\<rparr>,
           [OnNewOutputLevels [0x41200000, 0, 0, 0]]) \<and>
   ParseHIDData 64 (Some ([0x08, 0x14, 0x00, 0x4A, 0x00, 0x00, 0x20, 0x41] @ replicate 56 0xFF))
       ((callbackOnChange (attachOnNewOutputLevels True (MiniDSP_new MINIDSP_VID MINIDSP_PID)))
             \<lparr>outputLevels := [0x41200000, 0, 0, 0]\<rparr>) =
     Some ((callbackOnChange (attachOnNewOutputLevels True (MiniDSP_new MINIDSP_VID MINIDSP_PID)))
             \<lparr>outputLevels := [0x41200000, 0, 0, 0]\<rparr>,
           [OnNewOutputLevels [0x41200000, 0, 0, 0]])"
  by code_simp


section \<open>The first observation of a field\<close>

lemma fresh_values_new: "fresh_values (MiniDSP_new vid pid)"
  by (simp add: fresh_values_def MiniDSP_new_def)

lemma uint_u8_ne_256: "uint (d::u8) \<noteq> 256"
  using unsigned_less [of d, where ?'a = int] by simp

lemma fresh_values_differ: "fresh_values s \<Longrightarrow> legal F d \<Longrightarrow> \<not> field_is F d s"
proof (cases F)
  case Volume
  assume "fresh_values s"
  then have "uint (volume s) = 256" by (simp add: fresh_values_def MiniDSP_new_def)
  with Volume show ?thesis using uint_u8_ne_256 [of d] by simp
qed (auto simp: fresh_values_def MiniDSP_new_def word_le_nat_alt)

lemma visits_split:
  "i < n \<Longrightarrow> visits buf b 0 n =
     visits buf b 0 i @ (b + of_nat i, buf ! (i + 4)) # visits buf b (Suc i) n"
proof -
  assume i: "i < n"
  then have "[0..<n] = [0..<i] @ i # [Suc i..<n]"
    by (metis upt_conv_Cons less_imp_add_positive upt_add_eq_append zero_le)
  then show ?thesis by (simp add: visits_def)
qed

lemma visits_mem:
  "(a, d) \<in> set (visits buf b i n) \<longleftrightarrow> (\<exists>k. i \<le> k \<and> k < n \<and> a = b + of_nat k \<and> d = buf ! (k + 4))"
  by (auto simp: visits_def)

lemma calls_of_call_of: "calls_of F (call_of F d) = call_of F d"
  by (cases F) (simp_all add: calls_of_def)

lemma calls_of_append: "calls_of F (xs @ ys) = calls_of F xs @ calls_of F ys"
  by (simp add: calls_of_def)

lemma first_visit_calls:
  assumes i: "i < n"
    and F: "field_of_addr (b + of_nat i) = Some F"
    and first: "\<forall>k<i. field_of_addr (b + of_nat k) \<noteq> Some F"
    and differs: "\<not> field_is F (buf ! (i + 4)) s"
    and att: "attached F s"
  shows "\<exists>s' calls rest. fold visit (visits buf b 0 n) (s, []) = (s', calls) \<and>
           calls_of F calls = call_of F (buf ! (i + 4)) @ rest \<and>
           ((\<forall>k<n. i < k \<longrightarrow> field_of_addr (b + of_nat k) \<noteq> Some F) \<longrightarrow> rest = [])"
proof -
  let ?d = "buf ! (i + 4)"
  let ?pre = "visits buf b 0 i" and ?suf = "visits buf b (Suc i) n"
  obtain sa ca where fa: "fold visit ?pre (s, []) = (sa, ca)"
    by (cases "fold visit ?pre (s, [])")
  have npre: "\<forall>(a, d) \<in> set ?pre. field_of_addr a \<noteq> Some F"
    using first by (auto simp: visits_mem)
  from fold_visit_untouched [OF npre fa]
  have da: "\<not> field_is F ?d sa" and ca: "calls_of F ca = []"
    using differs by (simp_all add: calls_of_def)
  have atta: "attached F sa" using fold_visit_flags [OF fa] att by simp
  let ?sb = "put_field F ?d sa" and ?cb = "ca @ call_of F ?d"
  have step: "visit (b + of_nat i, ?d) (sa, ca) = (?sb, ?cb)"
    using da atta by (simp add: visit_field [OF F] notify_def)
  obtain s' extra where fs: "fold visit ?suf (?sb, []) = (s', extra)"
    by (cases "fold visit ?suf (?sb, [])")
  have fs': "fold visit ?suf (?sb, ?cb) = (s', ?cb @ extra)"
    using fold_visit_calls [of ?suf ?sb ?cb] fs by simp
  have whole: "fold visit (visits buf b 0 n) (s, []) = (s', ?cb @ extra)"
    using fa step fs' by (simp add: visits_split [OF i])
  have c: "calls_of F (?cb @ extra) = call_of F ?d @ calls_of F extra"
    using ca by (simp add: calls_of_append calls_of_call_of)
  have last: "(\<forall>k<n. i < k \<longrightarrow> field_of_addr (b + of_nat k) \<noteq> Some F) \<longrightarrow> calls_of F extra = []"
  proof
    assume "\<forall>k<n. i < k \<longrightarrow> field_of_addr (b + of_nat k) \<noteq> Some F"
    then have nsuf: "\<forall>(a, d) \<in> set ?suf. field_of_addr a \<noteq> Some F"
      by (auto simp: visits_mem)
    from fold_visit_untouched [OF nsuf fs] show "calls_of F extra = []"
      by (simp add: calls_of_def)
  qed
  show ?thesis using whole c last by blast
qed

lemma addr_distinct:
  "i < unat (n::u8) \<Longrightarrow> k < unat n \<Longrightarrow> k \<noteq> i \<Longrightarrow> (b::u8) + of_nat k \<noteq> b + of_nat i"
proof
  assume "i < unat n" "k < unat n" "k \<noteq> i" and e: "b + (of_nat k :: u8) = b + of_nat i"
  have "unat n < 256" using unsigned_less [of n, where ?'a = nat] by simp
  then have "k < 256" "i < 256" using \<open>i < unat n\<close> \<open>k < unat n\<close> by simp_all
  moreover from e have "(of_nat k :: u8) = of_nat i" by simp
  ultimately have "k = i" by (rule u8_of_nat_inj)
  with \<open>k \<noteq> i\<close> show False by simp
qed

lemma first_direct_set_call:
  assumes "fresh_values s" "length buf = 64" "field_of_opcode (buf ! 1) = Some F"
    "legal F (buf ! 2)" "attached F s"
  shows "\<exists>s'. parseDirectSetResponse buf s = Some (s', call_of F (buf ! 2))"
  using assms fresh_values_differ [OF assms(1,4)]
  by (simp add: parseDirectSetResponse_field notify_def)

lemma first_byte_read_call:
  assumes "fresh_values s" "length buf = 64" "4 \<le> unat (buf ! 0)" "unat (buf ! 0) \<le> 64"
    and "i < unat (buf ! 0 - 4)" "field_of_addr (buf ! 3 + of_nat i) = Some F"
    and "\<forall>k<i. field_of_addr (buf ! 3 + of_nat k) \<noteq> Some F"
    and "legal F (buf ! (i + 4))" "attached F s"
  shows "\<exists>s' calls rest. parseByteReadResponse buf s = Some (s', calls) \<and>
           calls_of F calls = call_of F (buf ! (i + 4)) @ rest \<and>
           ((\<forall>k<unat (buf ! 0 - 4). i < k \<longrightarrow> field_of_addr (buf ! 3 + of_nat k) \<noteq> Some F)
              \<longrightarrow> rest = [])"
  using first_visit_calls [OF assms(5,6,7) fresh_values_differ [OF assms(1,8)] assms(9)]
  by (simp add: parseByteReadResponse_fold [OF assms(2,3,4)])

lemma first_volume_call:
  assumes "fresh_values s" "length buf = 64" "4 \<le> unat (buf ! 0)" "unat (buf ! 0) \<le> 64"
    and i: "i < unat (buf ! 0 - 4)" and a: "buf ! 3 + of_nat i = 0xDA"
    and att: "pFuncOnVolumeChange s"
  shows "\<exists>s' calls. parseByteReadResponse buf s = Some (s', calls) \<and>
           calls_of Volume calls = [OnVolumeChange (buf ! (i + 4))]"
proof -
  have F: "field_of_addr (buf ! 3 + of_nat i) = Some Volume"
    using a by (simp add: field_of_addr_Volume)
  have other: "\<And>k. k < unat (buf ! 0 - 4) \<Longrightarrow> k \<noteq> i \<Longrightarrow>
                 field_of_addr (buf ! 3 + of_nat k) \<noteq> Some Volume"
  proof -
    fix k assume k: "k < unat (buf ! 0 - 4)" "k \<noteq> i"
    have "buf ! 3 + of_nat k \<noteq> buf ! 3 + of_nat i"
      using i k by (rule addr_distinct)
    then have "buf ! 3 + of_nat k \<noteq> 0xDA" unfolding a .
    then show "field_of_addr (buf ! 3 + of_nat k) \<noteq> Some Volume"
      by (simp only: field_of_addr_Volume not_False_eq_True)
  qed
  have first: "\<forall>k<i. field_of_addr (buf ! 3 + of_nat k) \<noteq> Some Volume"
    using other i by simp
  have later: "\<forall>k<unat (buf ! 0 - 4). i < k \<longrightarrow> field_of_addr (buf ! 3 + of_nat k) \<noteq> Some Volume"
    using other by simp
  have "legal Volume (buf ! (i + 4))" "attached Volume s" using att by simp_all
  from first_byte_read_call [OF assms(1-4) i F first this] later
  show ?thesis by auto
qed

text \<open>
  C3 (amended).  In a state whose tracked fields hold the constructor's values
  (\<open>preset = 4\<close>, \<open>source = 3\<close>, \<open>volume = 256\<close>, \<open>muted = 2\<close>) every legal value of a
  field differs from the stored one.  So, in either notification mode, the first
  observation of \<open>source\<close>, \<open>volume\<close> or \<open>muted\<close> calls the field's callback, when it is
  set, with the observed byte: a direct-set frame makes exactly that call; in a byte-read
  frame (\<open>4 \<le> frame[0] \<le> 64\<close>) the calls for the field start with it, and it is the
  only one when the field's address occurs once.  In particular a byte-read frame
  containing address \<open>0xDA\<close> calls the volume callback exactly once, whatever the byte.
  \<open>preset\<close> is stored without any call: it has no callback.
\<close>

theorem first_observation_notifies:
  assumes "fresh_values s" and "length buf = 64"
  shows "(\<forall>F d. legal F d \<longrightarrow> \<not> field_is F d s) \<and>
    (\<forall>F. field_of_opcode (buf ! 1) = Some F \<and> legal F (buf ! 2) \<and> attached F s \<longrightarrow>
       (\<exists>s'. parseDirectSetResponse buf s = Some (s', call_of F (buf ! 2)))) \<and>
    (\<forall>F i. 4 \<le> unat (buf ! 0) \<and> unat (buf ! 0) \<le> 64 \<and> i < unat (buf ! 0 - 4) \<and>
       field_of_addr (buf ! 3 + of_nat i) = Some F \<and>
       (\<forall>k<i. field_of_addr (buf ! 3 + of_nat k) \<noteq> Some F) \<and>
       legal F (buf ! (i + 4)) \<and> attached F s \<longrightarrow>
       (\<exists>s' calls rest. parseByteReadResponse buf s = Some (s', calls) \<and>
          calls_of F calls = call_of F (buf ! (i + 4)) @ rest \<and>
          ((\<forall>k<unat (buf ! 0 - 4). i < k \<longrightarrow> field_of_addr (buf ! 3 + of_nat k) \<noteq> Some F)
             \<longrightarrow> rest = []))) \<and>
    (\<forall>i. 4 \<le> unat (buf ! 0) \<and> unat (buf ! 0) \<le> 64 \<and> i < unat (buf ! 0 - 4) \<and>
       buf ! 3 + of_nat i = 0xDA \<and> pFuncOnVolumeChange s \<longrightarrow>
       (\<exists>s' calls. parseByteReadResponse buf s = Some (s', calls) \<and>
          calls_of Volume calls = [OnVolumeChange (buf ! (i + 4))])) \<and>
    (\<forall>d. byteRead_switch 0xD8 d s = (s\<lparr>preset := d\<rparr>, []))"
proof (intro conjI allI impI)
  fix F d assume "legal F d"
  with assms(1) show "\<not> field_is F d s" by (rule fresh_values_differ)
next
  fix F assume "field_of_opcode (buf ! 1) = Some F \<and> legal F (buf ! 2) \<and> attached F s"
  then show "\<exists>s'. parseDirectSetResponse buf s = Some (s', call_of F (buf ! 2))"
    using first_direct_set_call [OF assms] by blast
next
  fix F i
  assume "4 \<le> unat (buf ! 0) \<and> unat (buf ! 0) \<le> 64 \<and> i < unat (buf ! 0 - 4) \<and>
       field_of_addr (buf ! 3 + of_nat i) = Some F \<and>
       (\<forall>k<i. field_of_addr (buf ! 3 + of_nat k) \<noteq> Some F) \<and>
       legal F (buf ! (i + 4)) \<and> attached F s"
  then show "\<exists>s' calls rest. parseByteReadResponse buf s = Some (s', calls) \<and>
          calls_of F calls = call_of F (buf ! (i + 4)) @ rest \<and>
          ((\<forall>k<unat (buf ! 0 - 4). i < k \<longrightarrow> field_of_addr (buf ! 3 + of_nat k) \<noteq> Some F)
             \<longrightarrow> rest = [])"
    using first_byte_read_call [OF assms, of i F] by blast
next
  fix i
  assume "4 \<le> unat (buf ! 0) \<and> unat (buf ! 0) \<le> 64 \<and> i < unat (buf ! 0 - 4) \<and>
       buf ! 3 + of_nat i = 0xDA \<and> pFuncOnVolumeChange s"
  then show "\<exists>s' calls. parseByteReadResponse buf s = Some (s', calls) \<and>
          calls_of Volume calls = [OnVolumeChange (buf ! (i + 4))]"
    using first_volume_call [OF assms, of i] by blast
next
  fix d show "byteRead_switch 0xD8 d s = (s\<lparr>preset := d\<rparr>, [])"
    by (simp add: byteRead_switch_def preset_case_def)
qed

theorem first_observation_notifies_witness:
  "fresh_values (callbackOnChange (attachOnVolumeChange True (MiniDSP_new MINIDSP_VID MINIDSP_PID))) \<and>
   length ([0x07, 0x05, 0xFF, 0xD9, 0x01, 0x14, 0x00] @ replicate 57 (0xFF::u8)) = 64 \<and>
   (\<exists>s' calls.
      parseByteReadResponse ([0x07, 0x05, 0xFF, 0xD9, 0x01, 0x14, 0x00] @ replicate 57 0xFF)
        (callbackOnChange (attachOnVolumeChange True (MiniDSP_new MINIDSP_VID MINIDSP_PID))) =
        Some (s', calls) \<and>
      calls_of Volume calls = [OnVolumeChange 0x14])"
proof -
  let ?buf = "[0x07, 0x05, 0xFF, 0xD9, 0x01, 0x14, 0x00] @ replicate 57 (0xFF::u8)"
  let ?s = "callbackOnChange (attachOnVolumeChange True (MiniDSP_new MINIDSP_VID MINIDSP_PID))"
  have h1: "fresh_values ?s"
    by (simp add: fresh_values_def callbackOnChange_def attachOnVolumeChange_def MiniDSP_new_def)
  have h2: "length ?buf = 64" by simp
  have b0: "?buf ! 0 = 7" by simp
  have b3: "?buf ! 3 = 0xD9" by (simp add: numeral_3_eq_3)
  have b5: "?buf ! (1 + 4) = 0x14" by (simp add: numeral_eq_Suc)
  have c: "4 \<le> unat (?buf ! 0) \<and> unat (?buf ! 0) \<le> 64 \<and> 1 < unat (?buf ! 0 - 4) \<and>
       ?buf ! 3 + of_nat 1 = 0xDA \<and> pFuncOnVolumeChange ?s"
    unfolding b0 b3 by (simp add: callbackOnChange_def attachOnVolumeChange_def)
  from first_observation_notifies [OF h1 h2] c
  have "\<exists>s' calls. parseByteReadResponse ?buf ?s = Some (s', calls) \<and>
          calls_of Volume calls = [OnVolumeChange (?buf ! (1 + 4))]"
    by blast
  then show ?thesis unfolding b5 using h1 h2 by blast
qed

text \<open>
  The first observation of \<open>preset\<close>, with the legal value 1 and every callback set,
  produces no notification.
\<close>

theorem preset_observation_counterexample:
  "legal Preset 1 \<and>
   \<not> field_is Preset 1
       (callbackOnChange (attachOnMutedChange True (attachOnVolumeChange True
          (attachOnSourceChange True (MiniDSP_new MINIDSP_VID MINIDSP_PID))))) \<and>
   ParseHIDData 64 (Some ([0x05, 0x05, 0xFF, 0xD8, 0x01] @ replicate 59 0xFF))
       (callbackOnChange (attachOnMutedChange True (attachOnVolumeChange True
          (attachOnSourceChange True (MiniDSP_new MINIDSP_VID MINIDSP_PID))))) =
     Some ((callbackOnChange (attachOnMutedChange True (attachOnVolumeChange True
              (attachOnSourceChange True (MiniDSP_new MINIDSP_VID MINIDSP_PID)))))
             \<lparr>preset := 1\<rparr>, [])"
  by code_simp

end
